theory Spec2Isabelle
  imports Main "HOL-Library.Multiset"
begin

section \<open>The scanner's configuration\<close>

text \<open>
  \<^verbatim>\<open>scanner.go\<close> keeps the configuration of one scan in the struct \<^verbatim>\<open>Scanner\<close>. Go's
  \<^verbatim>\<open>int\<close> (64 bits) is modelled by \<open>int\<close>; the places that do arithmetic on it wrap as
  a 64-bit machine integer does (see \<open>int64\<close> below). A \<^verbatim>\<open>time.Duration\<close> is a
  number of nanoseconds. A \<^verbatim>\<open>context.Context\<close> is either the background context, which
  nobody can cancel, or a context the caller derived from it and may cancel (directly, or
  through a deadline).
\<close>

datatype Context = Background | CancelCtx

record Scanner =
  target :: string
  startPort :: int
  endPort :: int
  threads :: int
  timeout :: int
  showProgress :: bool
  ctx :: Context

type_synonym ScannerOption = "Scanner \<Rightarrow> Scanner"

definition Second :: int where
  "Second = 1000000000"

definition WithTarget :: "string \<Rightarrow> ScannerOption" where
  "WithTarget t = (\<lambda>s. s\<lparr>target := t\<rparr>)"

definition WithPortRange :: "int \<Rightarrow> int \<Rightarrow> ScannerOption" where
  "WithPortRange start endp = (\<lambda>s. (s\<lparr>startPort := start\<rparr>)\<lparr>endPort := endp\<rparr>)"

definition WithThreads :: "int \<Rightarrow> ScannerOption" where
  "WithThreads n = (\<lambda>s. s\<lparr>threads := n\<rparr>)"

definition WithTimeout :: "int \<Rightarrow> ScannerOption" where
  "WithTimeout d = (\<lambda>s. s\<lparr>timeout := d\<rparr>)"

definition WithProgress :: "bool \<Rightarrow> ScannerOption" where
  "WithProgress shw = (\<lambda>s. s\<lparr>showProgress := shw\<rparr>)"

definition WithContext :: "Context \<Rightarrow> ScannerOption" where
  "WithContext c = (\<lambda>s. s\<lparr>ctx := c\<rparr>)"

text \<open>\<^verbatim>\<open>NewScanner\<close> sets the defaults and applies the options in the order given.\<close>

definition NewScanner :: "ScannerOption list \<Rightarrow> Scanner" where
  "NewScanner options =
     foldl (\<lambda>s option. option s)
       \<lparr>target = ''localhost'', startPort = 1, endPort = 1024, threads = 100,
        timeout = Second, showProgress = True, ctx = Background\<rparr>
       options"

section \<open>The connectivity probe\<close>

text \<open>
  \<^verbatim>\<open>isPortOpen\<close> dials and classifies the outcome. The dial itself is the network's
  doing; the model takes its outcome as the input. Of a dial error the code looks at
  three things only, which the record keeps: whether it is a \<^verbatim>\<open>net.Error\<close> whose
  \<^verbatim>\<open>Timeout()\<close> holds, whether \<^verbatim>\<open>errors.Is(err, context.Canceled)\<close>, and whether
  \<^verbatim>\<open>errors.Is(err, context.DeadlineExceeded)\<close>.
\<close>

record net_error =
  net_timeout :: bool
  is_canceled :: bool
  is_deadline :: bool

datatype dial_result = Connected | Failed net_error

definition isPortOpen :: "dial_result \<Rightarrow> bool \<times> net_error option" where
  "isPortOpen d =
     (case d of
        Failed err \<Rightarrow>
          if net_timeout err then (False, None)
          else if is_canceled err \<or> is_deadline err then (False, Some err)
          else (False, None)
      | Connected \<Rightarrow> (True, None))"

text \<open>
  The errors a dial of Go's \<^verbatim>\<open>net\<close> package ends with. A refused or reset connection and
  a missing route are none of the three. The caller's \<^verbatim>\<open>cancel()\<close> gives an error that is
  \<^verbatim>\<open>context.Canceled\<close> and no timeout. The expiry of a deadline, the dialer's own
  \<^verbatim>\<open>Timeout\<close> or the deadline of the context passed in, gives an error whose
  \<^verbatim>\<open>Timeout()\<close> holds and that is \<^verbatim>\<open>context.DeadlineExceeded\<close>.
\<close>

definition refused_error :: net_error where
  "refused_error = \<lparr>net_timeout = False, is_canceled = False, is_deadline = False\<rparr>"

definition canceled_error :: net_error where
  "canceled_error = \<lparr>net_timeout = False, is_canceled = True, is_deadline = False\<rparr>"

definition deadline_error :: net_error where
  "deadline_error = \<lparr>net_timeout = True, is_canceled = False, is_deadline = True\<rparr>"

section \<open>The operating-system guess\<close>

fun contains :: "int list \<Rightarrow> int \<Rightarrow> bool" where
  "contains [] port = False"
| "contains (p # ports) port = (if p = port then True else contains ports port)"

definition guessOS :: "int list \<Rightarrow> string" where
  "guessOS openPorts =
     (let hasPort445 = contains openPorts 445;
          hasPort3389 = contains openPorts 3389;
          hasPort135 = contains openPorts 135;
          hasPort22 = contains openPorts 22;
          hasPort111 = contains openPorts 111;
          hasPort80 = contains openPorts 80;
          hasPort443 = contains openPorts 443
      in if hasPort445 \<or> hasPort3389 \<or> hasPort135 then ''Likely Windows''
         else if hasPort22 \<and> hasPort111 then ''Likely Linux/Unix''
         else if hasPort22 \<and> \<not> hasPort445 then ''Likely Linux/Unix or Network Device''
         else if (hasPort80 \<or> hasPort443) \<and> \<not> hasPort22 \<and> \<not> hasPort445
           then ''Likely Network Device or Appliance''
         else ''Unknown OS'')"

section \<open>The banner prober\<close>

text \<open>
  \<^verbatim>\<open>strings.ReplaceAll(s, old, new)\<close> replaces the occurrences of \<^verbatim>\<open>old\<close> from left to
  right, without overlap. Both calls of \<^verbatim>\<open>grabBanner\<close> pass a non-empty \<^verbatim>\<open>old\<close>; Go's
  insertion between the characters for an empty \<^verbatim>\<open>old\<close> is not modelled.
\<close>

definition CR :: char where "CR = CHR 0x0D"
definition LF :: char where "LF = CHR 0x0A"





text \<open>
  The post-processing as the specification words it: every line break, a carriage return
  with its line feed or a line feed alone, becomes one space, in one pass.
\<close>

fun spaces_for_breaks :: "string \<Rightarrow> string" where
  "spaces_for_breaks (c # d # cs) =
     (if c = CR \<and> d = LF then CHR '' '' # spaces_for_breaks cs
      else if c = LF then CHR '' '' # spaces_for_breaks (d # cs)
      else c # spaces_for_breaks (d # cs))"
| "spaces_for_breaks [c] = (if c = LF then '' '' else [c])"
| "spaces_for_breaks [] = []"


section \<open>Expanding an address range\<close>

text \<open>
  The functions of Go's library that \<^verbatim>\<open>expandIPRange\<close> calls. \<^verbatim>\<open>strings.Split\<close> is called
  with the one-byte separators "-" and "."; it cuts at every separator, so a string with
  \<open>n\<close> of them gives \<open>n + 1\<close> parts. \<^verbatim>\<open>strings.TrimSpace\<close> removes the leading and the
  trailing white space of Unicode, here the UTF-8 encodings of its code points.
  \<^verbatim>\<open>strconv.Atoi\<close> reads an optional sign and decimal digits and fails outside the 64-bit
  range; \<^verbatim>\<open>strconv.Itoa\<close> prints in decimal. \<open>int64\<close> is the wrap-around of Go's
  \<^verbatim>\<open>int\<close>.
\<close>

definition int64 :: "int \<Rightarrow> int" where
  "int64 x = (x + 2 ^ 63) mod 2 ^ 64 - 2 ^ 63"

function Split :: "string \<Rightarrow> char \<Rightarrow> string list" where
  "Split s sep =
     (if sep \<notin> set s then [s]
      else takeWhile (\<lambda>c. c \<noteq> sep) s # Split (tl (dropWhile (\<lambda>c. c \<noteq> sep) s)) sep)"
  by pat_completeness auto
termination
proof (relation "measure (\<lambda>(s, sep). length s)")
  fix s :: string and sep :: char
  assume "\<not> sep \<notin> set s"
  then have "dropWhile (\<lambda>c. c \<noteq> sep) s \<noteq> []" by auto
  then have "length (tl (dropWhile (\<lambda>c. c \<noteq> sep) s)) < length (dropWhile (\<lambda>c. c \<noteq> sep) s)"
    by (cases "dropWhile (\<lambda>c. c \<noteq> sep) s") auto
  also have "\<dots> \<le> length s" by (rule length_dropWhile_le)
  finally show "((tl (dropWhile (\<lambda>c. c \<noteq> sep) s), sep), (s, sep)) \<in> measure (\<lambda>(s, sep). length s)"
    by simp
qed simp

declare Split.simps [simp del]

definition space_runes :: "string list" where
  "space_runes =
     [[CHR 0x09], [CHR 0x0A], [CHR 0x0B], [CHR 0x0C], [CHR 0x0D], [CHR 0x20],
      [CHR 0xC2, CHR 0x85], [CHR 0xC2, CHR 0xA0], [CHR 0xE1, CHR 0x9A, CHR 0x80],
      [CHR 0xE2, CHR 0x80, CHR 0x80], [CHR 0xE2, CHR 0x80, CHR 0x81],
      [CHR 0xE2, CHR 0x80, CHR 0x82], [CHR 0xE2, CHR 0x80, CHR 0x83],
      [CHR 0xE2, CHR 0x80, CHR 0x84], [CHR 0xE2, CHR 0x80, CHR 0x85],
      [CHR 0xE2, CHR 0x80, CHR 0x86], [CHR 0xE2, CHR 0x80, CHR 0x87],
      [CHR 0xE2, CHR 0x80, CHR 0x88], [CHR 0xE2, CHR 0x80, CHR 0x89],
      [CHR 0xE2, CHR 0x80, CHR 0x8A], [CHR 0xE2, CHR 0x80, CHR 0xA8],
      [CHR 0xE2, CHR 0x80, CHR 0xA9], [CHR 0xE2, CHR 0x80, CHR 0xAF],
      [CHR 0xE2, CHR 0x81, CHR 0x9F], [CHR 0xE3, CHR 0x80, CHR 0x80]]"

definition space_len :: "string list \<Rightarrow> string \<Rightarrow> nat" where
  "space_len runes s =
     (case filter (\<lambda>r. r \<noteq> [] \<and> take (length r) s = r) runes of [] \<Rightarrow> 0 | r # _ \<Rightarrow> length r)"

function TrimLeft :: "string list \<Rightarrow> string \<Rightarrow> string" where
  "TrimLeft runes s = (if space_len runes s = 0 then s else TrimLeft runes (drop (space_len runes s) s))"
  by pat_completeness auto

termination TrimLeft
proof (relation "measure (\<lambda>(runes, s). length s)")
  fix runes :: "string list" and s :: string
  assume pos: "space_len runes s \<noteq> 0"
  have "space_len runes s \<le> length s"
  proof (cases "filter (\<lambda>r. r \<noteq> [] \<and> take (length r) s = r) runes")
    case Nil
    then show ?thesis by (simp add: space_len_def)
  next
    case (Cons r rs)
    then have "r \<in> set (filter (\<lambda>r. r \<noteq> [] \<and> take (length r) s = r) runes)" by simp
    then have "take (length r) s = r" by simp
    then have "length (take (length r) s) = length r" by simp
    then have "length r \<le> length s" by simp
    with Cons show ?thesis by (simp add: space_len_def)
  qed
  with pos show "((runes, drop (space_len runes s) s), (runes, s)) \<in> measure (\<lambda>(runes, s). length s)"
    by simp
qed simp

declare TrimLeft.simps [simp del]

definition TrimSpace :: "string \<Rightarrow> string" where
  "TrimSpace s = rev (TrimLeft (map rev space_runes) (rev (TrimLeft space_runes s)))"

definition isDigit :: "char \<Rightarrow> bool" where
  "isDigit c = (48 \<le> (of_char c :: nat) \<and> (of_char c :: nat) \<le> 57)"

definition digits_value :: "string \<Rightarrow> int" where
  "digits_value ds = foldl (\<lambda>n c. n * 10 + (int (of_char c) - 48)) 0 ds"

definition Atoi :: "string \<Rightarrow> int option" where
  "Atoi s =
     (let neg = (s \<noteq> [] \<and> hd s = CHR ''-'');
          ds = (if s \<noteq> [] \<and> (hd s = CHR ''+'' \<or> hd s = CHR ''-'') then tl s else s)
      in if ds = [] \<or> \<not> list_all isDigit ds then None
         else let v = (if neg then - digits_value ds else digits_value ds)
              in if v < - (2 ^ 63) \<or> 2 ^ 63 - 1 < v then None else Some v)"

function digits_of :: "nat \<Rightarrow> string" where
  "digits_of n = (if n < 10 then [char_of (48 + n)] else digits_of (n div 10) @ [char_of (48 + n mod 10)])"
  by pat_completeness auto
termination
  by (relation "measure id") auto

declare digits_of.simps [simp del]

definition Itoa :: "int \<Rightarrow> string" where
  "Itoa i = (if i < 0 then CHR ''-'' # digits_of (nat (- i)) else digits_of (nat i))"

text \<open>
  The loop \<^verbatim>\<open>for i := startOctet; i <= endOctet; i++\<close>. When \<^verbatim>\<open>endOctet\<close> is the largest
  \<^verbatim>\<open>int\<close> the increment wraps and the loop never ends: not returning is the value
  \<open>None\<close>.
\<close>

partial_function (option) ip_loop :: "int \<Rightarrow> int \<Rightarrow> string \<Rightarrow> string list \<Rightarrow> string list option" where
  "ip_loop i endOctet baseIP ips =
     (if i \<le> endOctet then ip_loop (int64 (i + 1)) endOctet baseIP (ips @ [baseIP @ Itoa i])
      else Some ips)"

declare ip_loop.simps [code]

definition expandIPRange :: "string \<Rightarrow> (string + string list) option" where
  "expandIPRange ipRange =
     (let parts = Split ipRange (CHR ''-'') in
      if length parts \<noteq> 2
      then Some (Inl ''invalid IP range format (use: 192.168.1.1-192.168.1.10)'')
      else
        let startIP = TrimSpace (parts ! 0);
            endIP = TrimSpace (parts ! 1);
            startIPParts = Split startIP (CHR ''.'')
        in if length startIPParts \<noteq> 4 then Some (Inl ''invalid start IP address'')
        else
          let endIPParts = Split endIP (CHR ''.'')
          in if length endIPParts \<noteq> 4 then Some (Inl ''invalid end IP address'')
          else
            (case Atoi (startIPParts ! 3) of
               None \<Rightarrow> Some (Inl ''invalid start IP address'')
             | Some startOctet \<Rightarrow>
                (case Atoi (endIPParts ! 3) of
                   None \<Rightarrow> Some (Inl ''invalid end IP address'')
                 | Some endOctet \<Rightarrow>
                    if startIPParts ! 0 \<noteq> endIPParts ! 0 \<or> startIPParts ! 1 \<noteq> endIPParts ! 1
                       \<or> startIPParts ! 2 \<noteq> endIPParts ! 2
                    then Some (Inl ''IP range must be in the same /24 subnet'')
                    else if startOctet > endOctet
                    then Some (Inl ''start IP must be less than or equal to end IP'')
                    else
                      let baseIP = startIPParts ! 0 @ ''.'' @ startIPParts ! 1 @ ''.''
                                   @ startIPParts ! 2 @ ''.''
                      in map_option Inr (ip_loop startOctet endOctet baseIP []))))"


section \<open>The scan engine\<close>

text \<open>
  \<^verbatim>\<open>Scan\<close> runs several goroutines that share three channels, a \<^verbatim>\<open>WaitGroup\<close> and the
  context. The model is a transition system: a state holds the channels, the counter and
  the place each goroutine has reached; an action is one step of one goroutine, or the
  caller's cancellation; and a run of \<^verbatim>\<open>Scan\<close> is a list of actions, one interleaving.

  \<^item> A worker is \<open>Idle\<close> at its outer \<^verbatim>\<open>select\<close>, \<open>Probing port\<close> inside \<^verbatim>\<open>isPortOpen\<close>,
    \<open>Sending port\<close> at its inner \<^verbatim>\<open>select\<close>, and \<open>Exited\<close> after its deferred
    \<^verbatim>\<open>wg.Done()\<close>.
  \<^item> The feeder is at its loop with the loop variable \<^verbatim>\<open>port\<close>, or done, its deferred
    \<^verbatim>\<open>close(ports)\<close> executed.
  \<^item> The goroutine of the completion barrier is at \<^verbatim>\<open>wg.Wait()\<close>, before
    \<^verbatim>\<open>close(results)\<close>, before \<^verbatim>\<open>close(done)\<close>, or done.
  \<^item> \<^verbatim>\<open>Scan\<close> itself is at \<^verbatim>\<open>range results\<close>, in the loop body with the port received
    (\<^verbatim>\<open>getServiceName\<close>, \<^verbatim>\<open>grabBanner\<close> and the print), at \<^verbatim>\<open><-done\<close>, at
    \<^verbatim>\<open>progressDone <- true\<close>, at the final \<^verbatim>\<open>select\<close>, or has returned its two results.

  Three fields are logs that the code does not have: \<open>probed\<close> lists the ports
  \<^verbatim>\<open>isPortOpen\<close> was called with, \<open>connected\<close> those for which it answered that the
  port is open, and \<open>banners\<close> the ports \<^verbatim>\<open>grabBanner\<close> was called with by \<^verbatim>\<open>Scan\<close>, each
  in the order of the calls.
\<close>

datatype ctx_err = Canceled | DeadlineExceeded

datatype scan_error = ScanCancelled ctx_err

datatype panic = MakechanSizeOutOfRange

datatype worker = Idle | Probing int | Sending int | Exited

datatype feeder = Feeding int | FeederDone

datatype closer = Waiting | ClosingResults | ClosingDone | CloserDone

datatype collector =
  Collecting | Bannering int | WaitingDone | StoppingProgress | Checking
  | Returned "int list" "scan_error option"

record state =
  cancelled :: "ctx_err option"
  ports :: "int list"
  ports_closed :: bool
  results :: "int list"
  results_closed :: bool
  done_closed :: bool
  wg :: nat
  workers :: "worker list"
  feeder :: feeder
  closer :: closer
  main :: collector
  openPorts :: "int list"
  probed :: "int list"
  connected :: "int list"
  banners :: "int list"

text \<open>
  The source's own \<^verbatim>\<open>min\<close>, the number of ports as \<^verbatim>\<open>Scan\<close> computes it, and the
  capacity of the two buffered channels. \<^verbatim>\<open>make(chan int, n)\<close> panics for a negative
  \<open>n\<close>. \<open>Scan_start\<close> is the state once \<^verbatim>\<open>Scan\<close> has made its channels and executed its
  \<^verbatim>\<open>go\<close> statements: \<^verbatim>\<open>threads\<close> workers (none when \<^verbatim>\<open>threads\<close> is not positive), each
  counted by \<^verbatim>\<open>wg.Add(1)\<close>, the barrier and the feeder. A worker started early can do
  nothing before that but leave on a cancelled context, which it can as well do later.
  The goroutine of \<^verbatim>\<open>displayProgress\<close> only draws; it takes the value sent on
  \<^verbatim>\<open>progressDone\<close> at its next \<^verbatim>\<open>select\<close>.
\<close>

definition min_int :: "int \<Rightarrow> int \<Rightarrow> int" where
  "min_int a b = (if a < b then a else b)"

definition portCount :: "Scanner \<Rightarrow> int" where
  "portCount s = int64 (int64 (endPort s - startPort s) + 1)"

definition capacity :: "Scanner \<Rightarrow> nat" where
  "capacity s = nat (min_int (portCount s) 1000)"

definition Scan_start :: "Scanner \<Rightarrow> panic + state" where
  "Scan_start s =
     (if min_int (portCount s) 1000 < 0 then Inl MakechanSizeOutOfRange
      else Inr \<lparr>cancelled = None, ports = [], ports_closed = False, results = [],
                results_closed = False, done_closed = False, wg = nat (threads s),
                workers = replicate (nat (threads s)) Idle, feeder = Feeding (startPort s),
                closer = Waiting, main = Collecting, openPorts = [], probed = [],
                connected = [], banners = []\<rparr>)"

text \<open>
  The actions. \<open>Cancel\<close> is the caller's (or the deadline's) and needs a context that can
  be cancelled. Of a \<^verbatim>\<open>select\<close> with several ready cases Go takes any: each case is an
  action of its own. A channel of capacity 0 has no buffer: a send on it happens
  together with the receive (\<open>WorkerHandoff\<close>, \<open>FeederHandoff\<close>). \<open>WorkerProbe\<close> carries
  the outcome of the dial, which is the network's choice.
\<close>

datatype action =
  Cancel ctx_err
  | WorkerCancelled nat
  | WorkerRecv nat
  | WorkerProbe nat dial_result
  | WorkerSend nat
  | WorkerHandoff nat
  | FeederSend
  | FeederHandoff nat
  | FeederCancelled
  | FeederClose
  | CloserWait
  | CloserCloseResults
  | CloserCloseDone
  | MainRecv
  | MainBanner
  | MainRangeEnd
  | MainDone
  | MainStopProgress
  | MainReturn

definition worker_exit :: "nat \<Rightarrow> state \<Rightarrow> state" where
  "worker_exit i st = st\<lparr>workers := (workers st)[i := Exited], wg := wg st - 1\<rparr>"

fun fire :: "Scanner \<Rightarrow> action \<Rightarrow> state \<Rightarrow> state option" where
  "fire s (Cancel e) st =
     (if ctx s = CancelCtx \<and> cancelled st = None then Some (st\<lparr>cancelled := Some e\<rparr>) else None)"
| "fire s (WorkerCancelled i) st =
     (if i < length (workers st) \<and> cancelled st \<noteq> None then
        (case workers st ! i of
           Idle \<Rightarrow> Some (worker_exit i st)
         | Sending port \<Rightarrow> Some (worker_exit i st)
         | _ \<Rightarrow> None)
      else None)"
| "fire s (WorkerRecv i) st =
     (if i < length (workers st) \<and> workers st ! i = Idle then
        (case ports st of
           port # rest \<Rightarrow>
             Some (st\<lparr>ports := rest, workers := (workers st)[i := Probing port],
                      probed := probed st @ [port]\<rparr>)
         | [] \<Rightarrow> if ports_closed st then Some (worker_exit i st) else None)
      else None)"
| "fire s (WorkerProbe i d) st =
     (if i < length (workers st) then
        (case workers st ! i of
           Probing port \<Rightarrow>
             (case isPortOpen d of
                (isOpen, Some err) \<Rightarrow> Some (st\<lparr>workers := (workers st)[i := Idle]\<rparr>)
              | (isOpen, None) \<Rightarrow>
                  if isOpen
                  then Some (st\<lparr>workers := (workers st)[i := Sending port],
                                connected := connected st @ [port]\<rparr>)
                  else Some (st\<lparr>workers := (workers st)[i := Idle]\<rparr>))
         | _ \<Rightarrow> None)
      else None)"
| "fire s (WorkerSend i) st =
     (if i < length (workers st) \<and> \<not> results_closed st \<and> length (results st) < capacity s then
        (case workers st ! i of
           Sending port \<Rightarrow>
             Some (st\<lparr>results := results st @ [port], workers := (workers st)[i := Idle]\<rparr>)
         | _ \<Rightarrow> None)
      else None)"
| "fire s (WorkerHandoff i) st =
     (if i < length (workers st) \<and> \<not> results_closed st \<and> capacity s = 0
         \<and> main st = Collecting then
        (case workers st ! i of
           Sending port \<Rightarrow>
             Some (st\<lparr>workers := (workers st)[i := Idle], openPorts := openPorts st @ [port],
                      main := Bannering port\<rparr>)
         | _ \<Rightarrow> None)
      else None)"
| "fire s FeederSend st =
     (case feeder st of
        Feeding port \<Rightarrow>
          if port \<le> endPort s \<and> length (ports st) < capacity s then
            Some (st\<lparr>ports := ports st @ [port], feeder := Feeding (int64 (port + 1))\<rparr>)
          else None
      | FeederDone \<Rightarrow> None)"
| "fire s (FeederHandoff i) st =
     (case feeder st of
        Feeding port \<Rightarrow>
          if port \<le> endPort s \<and> capacity s = 0 \<and> i < length (workers st)
             \<and> workers st ! i = Idle then
            Some (st\<lparr>workers := (workers st)[i := Probing port], probed := probed st @ [port],
                     feeder := Feeding (int64 (port + 1))\<rparr>)
          else None
      | FeederDone \<Rightarrow> None)"
| "fire s FeederCancelled st =
     (case feeder st of
        Feeding port \<Rightarrow>
          if port \<le> endPort s \<and> cancelled st \<noteq> None then
            Some (st\<lparr>ports_closed := True, feeder := FeederDone\<rparr>)
          else None
      | FeederDone \<Rightarrow> None)"
| "fire s FeederClose st =
     (case feeder st of
        Feeding port \<Rightarrow>
          if port \<le> endPort s then None
          else Some (st\<lparr>ports_closed := True, feeder := FeederDone\<rparr>)
      | FeederDone \<Rightarrow> None)"
| "fire s CloserWait st =
     (if closer st = Waiting \<and> wg st = 0 then Some (st\<lparr>closer := ClosingResults\<rparr>) else None)"
| "fire s CloserCloseResults st =
     (if closer st = ClosingResults then Some (st\<lparr>results_closed := True, closer := ClosingDone\<rparr>)
      else None)"
| "fire s CloserCloseDone st =
     (if closer st = ClosingDone then Some (st\<lparr>done_closed := True, closer := CloserDone\<rparr>)
      else None)"
| "fire s MainRecv st =
     (if main st = Collecting then
        (case results st of
           port # rest \<Rightarrow>
             Some (st\<lparr>results := rest, openPorts := openPorts st @ [port], main := Bannering port\<rparr>)
         | [] \<Rightarrow> None)
      else None)"
| "fire s MainBanner st =
     (case main st of
        Bannering port \<Rightarrow> Some (st\<lparr>banners := banners st @ [port], main := Collecting\<rparr>)
      | _ \<Rightarrow> None)"
| "fire s MainRangeEnd st =
     (if main st = Collecting \<and> results st = [] \<and> results_closed st
      then Some (st\<lparr>main := WaitingDone\<rparr>) else None)"
| "fire s MainDone st =
     (if main st = WaitingDone \<and> done_closed st
      then Some (st\<lparr>main := (if showProgress s then StoppingProgress else Checking)\<rparr>)
      else None)"
| "fire s MainStopProgress st =
     (if main st = StoppingProgress then Some (st\<lparr>main := Checking\<rparr>) else None)"
| "fire s MainReturn st =
     (if main st = Checking then
        Some (st\<lparr>main := Returned (openPorts st)
                 (case cancelled st of Some e \<Rightarrow> Some (ScanCancelled e) | None \<Rightarrow> None)\<rparr>)
      else None)"

text \<open>
  A send on a closed channel would panic. The feeder alone closes \<^verbatim>\<open>ports\<close>, after its
  last send; \<^verbatim>\<open>results\<close> is closed after \<^verbatim>\<open>wg.Wait()\<close>, when no worker is left to send
  (\<open>no_send_on_closed\<close> below), so the guard of \<open>WorkerSend\<close> and \<open>WorkerHandoff\<close> on
  the open channel excludes no step that the code can take.

  A step is an action that is enabled; after the return of \<^verbatim>\<open>Scan\<close> the model stops.
  \<open>Scan s as\<close> is the state that the schedule \<open>as\<close> leads to, \<open>None\<close> when the channels
  could not be made or when an action of the schedule is not enabled at its turn.
\<close>

fun returned :: "collector \<Rightarrow> bool" where
  "returned (Returned ps e) = True"
| "returned _ = False"

definition step :: "Scanner \<Rightarrow> action \<Rightarrow> state \<Rightarrow> state option" where
  "step s a st = (if returned (main st) then None else fire s a st)"

fun run :: "Scanner \<Rightarrow> action list \<Rightarrow> state \<Rightarrow> state option" where
  "run s [] st = Some st"
| "run s (a # as) st = (case step s a st of None \<Rightarrow> None | Some st' \<Rightarrow> run s as st')"

definition Scan :: "Scanner \<Rightarrow> action list \<Rightarrow> state option" where
  "Scan s as = (case Scan_start s of Inl p \<Rightarrow> None | Inr st \<Rightarrow> run s as st)"


subsection \<open>Invariants of the engine\<close>

text \<open>
  \<open>banner_inv\<close>: the calls of \<^verbatim>\<open>grabBanner\<close>, with the one that is due, are the ports
  collected. \<open>return_inv\<close>: what \<^verbatim>\<open>Scan\<close> returned. \<open>pipeline_inv\<close>: the counter counts the
  workers that have not exited, a channel is closed exactly when its closing goroutine
  is past the \<^verbatim>\<open>close\<close>, the barrier passes only at counter zero, and \<^verbatim>\<open>Scan\<close> leaves its
  loop only on the closed channel. \<open>feed_inv\<close>: the ports handed out or queued are
  distinct and below the feeder's loop variable. \<open>flow_inv\<close>: every port collected,
  queued as a result or held by a worker was handed to a worker before.
\<close>

definition pending :: "collector \<Rightarrow> int list" where
  "pending m = (case m of Bannering port \<Rightarrow> [port] | _ \<Rightarrow> [])"

definition banner_inv :: "state \<Rightarrow> bool" where
  "banner_inv st = (banners st @ pending (main st) = openPorts st)"

definition return_inv :: "state \<Rightarrow> bool" where
  "return_inv st =
     (case main st of
        Returned ps e \<Rightarrow> ps = openPorts st \<and> e = map_option ScanCancelled (cancelled st)
      | _ \<Rightarrow> True)"

definition live_count :: "worker list \<Rightarrow> nat" where
  "live_count ws = length (filter (\<lambda>w. w \<noteq> Exited) ws)"

definition pipeline_inv :: "state \<Rightarrow> bool" where
  "pipeline_inv st =
     (wg st = live_count (workers st) \<and>
      (ports_closed st = (feeder st = FeederDone)) \<and>
      (results_closed st = (closer st = ClosingDone \<or> closer st = CloserDone)) \<and>
      (done_closed st = (closer st = CloserDone)) \<and>
      (closer st = Waiting \<or> wg st = 0) \<and>
      (main st = Collecting \<or> (\<exists>port. main st = Bannering port)
       \<or> results_closed st \<and> results st = []))"

definition held :: "worker \<Rightarrow> int multiset" where
  "held w = (case w of Probing port \<Rightarrow> {#port#} | Sending port \<Rightarrow> {#port#} | _ \<Rightarrow> {#})"

definition in_workers :: "worker list \<Rightarrow> int multiset" where
  "in_workers ws = sum_list (map held ws)"

definition valid_range :: "Scanner \<Rightarrow> bool" where
  "valid_range s = (1 \<le> startPort s \<and> startPort s \<le> endPort s \<and> endPort s \<le> 65535)"

definition feed_inv :: "Scanner \<Rightarrow> state \<Rightarrow> bool" where
  "feed_inv s st =
     (distinct (probed st @ ports st) \<and>
      (case feeder st of
         Feeding port \<Rightarrow>
           startPort s \<le> port \<and> port \<le> endPort s + 1
           \<and> set (probed st @ ports st) \<subseteq> {startPort s..<port}
       | FeederDone \<Rightarrow> set (probed st @ ports st) \<subseteq> {startPort s..endPort s}))"

definition flow_inv :: "state \<Rightarrow> bool" where
  "flow_inv st =
     (mset (openPorts st) + mset (results st) + in_workers (workers st) \<subseteq># mset (probed st))"

text \<open>
  \<open>partial_inv\<close>: every port collected, queued as a result or about to be sent was found
  open by its probe. \<open>exact_inv\<close>: without cancellation none of these is lost.
  \<open>complete_inv\<close>: without cancellation the ports handed out or queued are all the
  ports below the feeder's loop variable, and a worker has exited only after the feeder
  was done and the queue empty.
\<close>

definition sending :: "worker \<Rightarrow> int multiset" where
  "sending w = (case w of Sending port \<Rightarrow> {#port#} | _ \<Rightarrow> {#})"

definition exact_inv :: "state \<Rightarrow> bool" where
  "exact_inv st =
     (cancelled st = None \<longrightarrow>
      mset (openPorts st) + mset (results st) + sum_list (map sending (workers st))
        = mset (connected st))"

definition complete_inv :: "Scanner \<Rightarrow> state \<Rightarrow> bool" where
  "complete_inv s st =
     (cancelled st = None \<longrightarrow>
      (case feeder st of
         Feeding port \<Rightarrow> set (probed st @ ports st) = {startPort s..<port}
       | FeederDone \<Rightarrow> set (probed st @ ports st) = {startPort s..endPort s}) \<and>
      (Exited \<in> set (workers st) \<longrightarrow> feeder st = FeederDone \<and> ports st = []))"

definition partial_inv :: "state \<Rightarrow> bool" where
  "partial_inv st =
     (mset (openPorts st) + mset (results st) + sum_list (map sending (workers st))
        \<subseteq># mset (connected st))"

subsection \<open>A scheduler and a measure\<close>

text \<open>
  \<open>next_action\<close> picks an action for any state in which \<^verbatim>\<open>Scan\<close> has not returned: the
  step of \<^verbatim>\<open>Scan\<close> itself if it has one, else of the barrier, else of the first worker
  that has not exited, else of the feeder. \<open>finish s n st\<close> is the schedule of at most
  \<open>n\<close> such actions from \<open>st\<close>. \<open>work_left\<close> weighs what is left to do; every step
  lowers it when the feeder's increment does not wrap (\<open>no_wrap\<close>).
\<close>

fun first_live :: "worker list \<Rightarrow> nat" where
  "first_live [] = 0"
| "first_live (w # ws) = (if w \<noteq> Exited then 0 else Suc (first_live ws))"

definition worker_action :: "Scanner \<Rightarrow> state \<Rightarrow> nat \<Rightarrow> action" where
  "worker_action s st i =
     (case workers st ! i of
        Probing port \<Rightarrow> WorkerProbe i (Failed refused_error)
      | Sending port \<Rightarrow> if capacity s = 0 then WorkerHandoff i else WorkerSend i
      | _ \<Rightarrow>
          if cancelled st \<noteq> None then WorkerCancelled i
          else if ports st \<noteq> [] \<or> ports_closed st then WorkerRecv i
          else (case feeder st of
                  Feeding port \<Rightarrow>
                    if port \<le> endPort s
                    then (if capacity s = 0 then FeederHandoff i else FeederSend)
                    else FeederClose
                | FeederDone \<Rightarrow> FeederClose))"

definition next_action :: "Scanner \<Rightarrow> state \<Rightarrow> action" where
  "next_action s st =
     (case main st of
        Collecting \<Rightarrow>
          if results st \<noteq> [] then MainRecv
          else if results_closed st then MainRangeEnd
          else if closer st = ClosingResults then CloserCloseResults
          else if wg st = 0 then CloserWait
          else worker_action s st (first_live (workers st))
      | Bannering port \<Rightarrow> MainBanner
      | WaitingDone \<Rightarrow> if done_closed st then MainDone else CloserCloseDone
      | StoppingProgress \<Rightarrow> MainStopProgress
      | _ \<Rightarrow> MainReturn)"

fun finish :: "Scanner \<Rightarrow> nat \<Rightarrow> state \<Rightarrow> action list" where
  "finish s 0 st = []"
| "finish s (Suc n) st =
     (if returned (main st) then []
      else (case step s (next_action s st) st of
              None \<Rightarrow> []
            | Some st' \<Rightarrow> next_action s st # finish s n st'))"

fun weight :: "worker \<Rightarrow> nat" where
  "weight Exited = 0"
| "weight Idle = 1"
| "weight (Sending port) = 4"
| "weight (Probing port) = 5"

definition control_left :: "state \<Rightarrow> nat" where
  "control_left st =
     (case closer st of Waiting \<Rightarrow> 3 | ClosingResults \<Rightarrow> 2 | ClosingDone \<Rightarrow> 1 | CloserDone \<Rightarrow> 0)
     + (case main st of
          Collecting \<Rightarrow> 5 | Bannering port \<Rightarrow> 6 | WaitingDone \<Rightarrow> 4 | StoppingProgress \<Rightarrow> 3
        | Checking \<Rightarrow> 2 | Returned ps e \<Rightarrow> 0)"

definition work_left :: "Scanner \<Rightarrow> state \<Rightarrow> nat" where
  "work_left s st =
     (if cancelled st = None then 1 else 0)
     + (case feeder st of Feeding port \<Rightarrow> 1 + 6 * nat (endPort s + 1 - port) | FeederDone \<Rightarrow> 0)
     + 5 * length (ports st)
     + sum_list (map weight (workers st))
     + 2 * length (results st)
     + control_left st"

definition no_wrap :: "Scanner \<Rightarrow> bool" where
  "no_wrap s = (- (2 ^ 63) \<le> startPort s \<and> endPort s < 2 ^ 63 - 1)"

definition feeder_lb :: "Scanner \<Rightarrow> state \<Rightarrow> bool" where
  "feeder_lb s st = (case feeder st of Feeding port \<Rightarrow> startPort s \<le> port | FeederDone \<Rightarrow> True)"

subsection \<open>Example scans\<close>

text \<open>
  A scan of ports 22 and 23 with two workers, where 22 accepts the connection and 23
  refuses it. A scan without workers, the schedule on which its barrier fires and it
  returns, and its state once the feeder has filled the queue of 1000 places. A scan of
  the single port 70000 with a negative timeout. A scan that is cancelled after port 22
  was collected.
\<close>

definition two_port_scan :: Scanner where
  "two_port_scan = NewScanner [WithThreads 2, WithPortRange 22 23]"

definition two_port_run :: "action list" where
  "two_port_run =
     [FeederSend, WorkerRecv 1, FeederSend, WorkerProbe 1 Connected, WorkerRecv 0,
      WorkerSend 1, FeederClose, WorkerProbe 0 (Failed refused_error), MainRecv,
      WorkerRecv 0, WorkerRecv 1, MainBanner, CloserWait, CloserCloseResults,
      CloserCloseDone, MainRangeEnd, MainDone, MainStopProgress, MainReturn]"

definition no_worker_scan :: Scanner where
  "no_worker_scan = NewScanner [WithThreads 0]"

definition barrier_run :: "action list" where
  "barrier_run =
     [CloserWait, CloserCloseResults, CloserCloseDone, MainRangeEnd, MainDone,
      MainStopProgress, MainReturn]"




definition cancelled_scan :: Scanner where
  "cancelled_scan =
     NewScanner [WithThreads 1, WithPortRange 22 23, WithProgress False, WithContext CancelCtx]"

definition cancelled_run :: "action list" where
  "cancelled_run =
     [FeederSend, WorkerRecv 0, WorkerProbe 0 Connected, WorkerSend 0, MainRecv,
      Cancel Canceled, WorkerCancelled 0, FeederCancelled, MainBanner, CloserWait,
      CloserCloseResults, CloserCloseDone, MainRangeEnd, MainDone, MainReturn]"

definition full_queue :: state where
  "full_queue =
     \<lparr>cancelled = None, ports = map (\<lambda>k. 1 + int k) [0..<1000], ports_closed = False,
      results = [], results_closed = False, done_closed = False, wg = 0, workers = [],
      feeder = Feeding 1001, closer = Waiting, main = Collecting, openPorts = [],
      probed = [], connected = [], banners = []\<rparr>"

definition full_queue_returned :: state where
  "full_queue_returned =
     full_queue\<lparr>results_closed := True, done_closed := True, closer := CloserDone,
       main := Returned [] None\<rparr>"

section \<open>Properties of the operating-system guess\<close>

lemma contains_iff: "contains ps port \<longleftrightarrow> port \<in> set ps"
  by (induction ps) auto

text \<open>
  C8. \<^verbatim>\<open>guessOS\<close> answers "Likely Windows" as soon as 445, 3389 or 135 is in the list,
  whatever else is, and "Unknown OS" exactly when none of 445, 3389, 135, 22, 80 and 443
  is in it.
\<close>

theorem guessOS_windows_first_unknown_last:
  "(445 \<in> set ps \<or> 3389 \<in> set ps \<or> 135 \<in> set ps \<longrightarrow> guessOS ps = ''Likely Windows'') \<and>
   (guessOS ps = ''Unknown OS'' \<longleftrightarrow>
      445 \<notin> set ps \<and> 3389 \<notin> set ps \<and> 135 \<notin> set ps \<and> 22 \<notin> set ps \<and> 80 \<notin> set ps \<and> 443 \<notin> set ps)"
  by (auto simp add: guessOS_def Let_def contains_iff)

theorem guessOS_witness:
  "(445 \<in> set [22, 111, 445 :: int] \<or> 3389 \<in> set [22, 111, 445 :: int] \<or> 135 \<in> set [22, 111, 445 :: int])
   \<and> guessOS [22, 111, 445] = ''Likely Windows''"
proof -
  have h: "445 \<in> set [22, 111, 445 :: int] \<or> 3389 \<in> set [22, 111, 445 :: int]
           \<or> 135 \<in> set [22, 111, 445 :: int]"
    by simp
  from guessOS_windows_first_unknown_last [of "[22, 111, 445]"] h
  have "guessOS [22, 111, 445] = ''Likely Windows''" by blast
  with h show ?thesis by blast
qed

section \<open>Properties of the connectivity probe\<close>

lemma isPortOpen_never_open_on_failure: "fst (isPortOpen (Failed err)) = False"
  by (simp add: isPortOpen_def)

lemma isPortOpen_timeout: "net_timeout err \<Longrightarrow> isPortOpen (Failed err) = (False, None)"
  by (simp add: isPortOpen_def)

lemma isPortOpen_ordinary:
  "\<not> is_canceled err \<Longrightarrow> \<not> is_deadline err \<Longrightarrow> isPortOpen (Failed err) = (False, None)"
  by (simp add: isPortOpen_def)

lemma isPortOpen_canceled:
  "\<not> net_timeout err \<Longrightarrow> is_canceled err \<or> is_deadline err \<Longrightarrow>
   isPortOpen (Failed err) = (False, Some err)"
  by (simp add: isPortOpen_def)

text \<open>
  C4. The probe tests \<^verbatim>\<open>Timeout()\<close> before it tests for the context's errors. The error
  of a context whose deadline expired is a timeout as well, so the first test answers
  for it: the probe returns no error, and the test for \<^verbatim>\<open>context.DeadlineExceeded\<close>
  below it is never reached with such an error.
\<close>

theorem isPortOpen_deadline_swallowed:
  "is_deadline deadline_error \<and> isPortOpen (Failed deadline_error) = (False, None) \<and>
   isPortOpen (Failed canceled_error) = (False, Some canceled_error) \<and>
   isPortOpen (Failed refused_error) = (False, None)"
  by (simp add: isPortOpen_def deadline_error_def canceled_error_def refused_error_def)

section \<open>Properties of the banner prober\<close>








lemma length_spaces_for_breaks: "length (spaces_for_breaks s) \<le> length s"
  by (induction s rule: spaces_for_breaks.induct) auto



section \<open>Properties of the address range\<close>

lemma int64_id: "- (2 ^ 63) \<le> x \<Longrightarrow> x < 2 ^ 63 \<Longrightarrow> int64 x = x"
  by (simp add: int64_def)

lemma int64_le: "int64 x \<le> 2 ^ 63 - 1"
proof -
  have "(x + 2 ^ 63) mod 2 ^ 64 < (2 ^ 64 :: int)" by simp
  then show ?thesis by (simp add: int64_def)
qed

lemma ip_loop_returns:
  "- (2 ^ 63) \<le> i \<Longrightarrow> endOctet < 2 ^ 63 - 1 \<Longrightarrow>
   ip_loop i endOctet baseIP ips = Some (ips @ map (\<lambda>k. baseIP @ Itoa k) [i..endOctet])"
proof (induction "nat (endOctet + 1 - i)" arbitrary: i ips)
  case 0
  then have "\<not> i \<le> endOctet" by simp
  then show ?case by (subst ip_loop.simps) simp
next
  case (Suc n)
  then have le: "i \<le> endOctet" by simp
  with Suc.prems have id: "int64 (i + 1) = i + 1" by (intro int64_id) simp_all
  have n: "n = nat (endOctet + 1 - (i + 1))" using Suc.hyps(2) by simp
  have "ip_loop (i + 1) endOctet baseIP (ips @ [baseIP @ Itoa i])
        = Some ((ips @ [baseIP @ Itoa i]) @ map (\<lambda>k. baseIP @ Itoa k) [i + 1..endOctet])"
    using Suc.prems by (intro Suc.hyps(1) [OF n]) simp_all
  moreover have "[i..endOctet] = i # [i + 1..endOctet]" using le by (rule upto_rec1)
  ultimately show ?case using le id by (subst ip_loop.simps) simp
qed

lemma ip_loop_Some_end:
  assumes "ip_loop i endOctet baseIP ips = Some y"
  shows "\<not> (endOctet = 2 ^ 63 - 1 \<and> i \<le> 2 ^ 63 - 1)"
proof (rule ip_loop.raw_induct [where P = "\<lambda>i e b ips y. \<not> (e = 2 ^ 63 - 1 \<and> i \<le> 2 ^ 63 - 1)", OF _ assms])
  fix f :: "int \<Rightarrow> int \<Rightarrow> string \<Rightarrow> string list \<Rightarrow> string list option"
  fix i e :: int and b :: string and ips y :: "string list"
  assume ih: "\<And>i e b ips y. f i e b ips = Some y \<Longrightarrow> \<not> (e = 2 ^ 63 - 1 \<and> i \<le> 2 ^ 63 - 1)"
  assume body: "(if i \<le> e then f (int64 (i + 1)) e b (ips @ [b @ Itoa i]) else Some ips) = Some y"
  show "\<not> (e = 2 ^ 63 - 1 \<and> i \<le> 2 ^ 63 - 1)"
  proof (cases "i \<le> e")
    case True
    with body have "f (int64 (i + 1)) e b (ips @ [b @ Itoa i]) = Some y" by simp
    from ih [OF this] int64_le [of "i + 1"] show ?thesis by simp
  next
    case False
    then show ?thesis by auto
  qed
qed

lemma Atoi_range: "Atoi s = Some v \<Longrightarrow> - (2 ^ 63) \<le> v \<and> v \<le> 2 ^ 63 - 1"
  by (auto simp: Atoi_def Let_def split: if_splits)

lemma length4: "length xs = 4 \<Longrightarrow> xs = [xs ! 0, xs ! 1, xs ! 2, xs ! 3]"
  by (auto simp: numeral_eq_Suc length_Suc_conv)

lemma Split_no_sep: "sep \<notin> set s \<Longrightarrow> Split s sep = [s]"
  by (subst Split.simps) simp

lemma Split_first:
  assumes "sep \<notin> set a"
  shows "Split (a @ sep # rest) sep = a # Split rest sep"
proof -
  from assms have "takeWhile (\<lambda>c. c \<noteq> sep) (a @ sep # rest) = a"
    by (induction a) auto
  moreover from assms have "dropWhile (\<lambda>c. c \<noteq> sep) (a @ sep # rest) = sep # rest"
    by (induction a) auto
  ultimately show ?thesis by (subst Split.simps) simp
qed

lemma Split_parts_no_sep: "p \<in> set (Split s sep) \<Longrightarrow> sep \<notin> set p"
proof (induction s sep arbitrary: p rule: Split.induct)
  case (1 s sep)
  show ?case
  proof (cases "sep \<in> set s")
    case False
    with 1(2) show ?thesis by (simp add: Split_no_sep)
  next
    case True
    with 1(2) have "p = takeWhile (\<lambda>c. c \<noteq> sep) s
        \<or> p \<in> set (Split (tl (dropWhile (\<lambda>c. c \<noteq> sep) s)) sep)"
      by (subst (asm) Split.simps) simp
    then show ?thesis
    proof
      assume "p = takeWhile (\<lambda>c. c \<noteq> sep) s"
      then show ?thesis by (auto dest: set_takeWhileD)
    next
      assume "p \<in> set (Split (tl (dropWhile (\<lambda>c. c \<noteq> sep) s)) sep)"
      with 1(1) True show ?thesis by simp
    qed
  qed
qed

lemma Split_join4:
  assumes "sep \<notin> set a" "sep \<notin> set b" "sep \<notin> set c" "sep \<notin> set d"
  shows "Split (a @ [sep] @ b @ [sep] @ c @ [sep] @ d) sep = [a, b, c, d]"
  using assms by (simp add: Split_first Split_no_sep)

lemma digits_of_digits: "list_all isDigit (digits_of n)"
proof (induction n rule: digits_of.induct)
  case (1 n)
  have d: "isDigit (char_of (48 + k))" if "k < 10" for k :: nat
    using that by (simp add: isDigit_def)
  show ?case
  proof (cases "n < 10")
    case True
    then show ?thesis by (subst digits_of.simps) (simp add: d)
  next
    case False
    with 1 show ?thesis by (subst digits_of.simps) (simp add: d)
  qed
qed

lemma digits_of_nonempty: "digits_of n \<noteq> []"
  by (subst digits_of.simps) simp

lemma digits_value_snoc:
  "digits_value (ds @ [c]) = digits_value ds * 10 + (int (of_char c) - 48)"
  by (simp add: digits_value_def)

lemma digits_value_digits_of: "digits_value (digits_of n) = int n"
proof (induction n rule: digits_of.induct)
  case (1 n)
  show ?case
  proof (cases "n < 10")
    case True
    then show ?thesis by (subst digits_of.simps) (simp add: digits_value_def)
  next
    case False
    with 1 have "digits_value (digits_of (n div 10)) = int (n div 10)" by simp
    with False show ?thesis
      by (subst digits_of.simps) (simp add: digits_value_snoc zdiv_int zmod_int)
  qed
qed

lemma isDigit_not_sign: "isDigit c \<Longrightarrow> c \<noteq> CHR ''+'' \<and> c \<noteq> CHR ''-'' \<and> c \<noteq> CHR ''.''"
  by (auto simp: isDigit_def)

lemma hd_digits_of: "isDigit (hd (digits_of n))"
  using digits_of_digits [of n] digits_of_nonempty [of n]
  by (cases "digits_of n") simp_all

lemma Atoi_Itoa:
  assumes "- (2 ^ 63) \<le> k" "k \<le> 2 ^ 63 - 1"
  shows "Atoi (Itoa k) = Some k"
proof (cases "k < 0")
  case True
  with assms show ?thesis
    by (simp add: Atoi_def Itoa_def Let_def digits_of_digits digits_of_nonempty
        digits_value_digits_of)
next
  case False
  from isDigit_not_sign [OF hd_digits_of]
  have "hd (digits_of (nat k)) \<noteq> CHR ''+''" "hd (digits_of (nat k)) \<noteq> CHR ''-''" by simp_all
  with False assms show ?thesis
    by (simp add: Atoi_def Itoa_def Let_def digits_of_digits digits_of_nonempty
        digits_value_digits_of)
qed

lemma Itoa_no_dot: "CHR ''.'' \<notin> set (Itoa k)"
proof -
  have "CHR ''.'' \<notin> set (digits_of n)" for n
    using digits_of_digits [of n] isDigit_not_sign by (auto simp: list_all_iff)
  then show ?thesis by (simp add: Itoa_def)
qed


lemma expandIPRange_success:
  assumes "expandIPRange ipRange = Some (Inr ips)"
  shows "\<exists>p0 p1 p2 p3 q3 startOctet endOctet.
     Split (TrimSpace (Split ipRange (CHR ''-'') ! 0)) (CHR ''.'') = [p0, p1, p2, p3] \<and>
     Split (TrimSpace (Split ipRange (CHR ''-'') ! 1)) (CHR ''.'') = [p0, p1, p2, q3] \<and>
     Atoi p3 = Some startOctet \<and> Atoi q3 = Some endOctet \<and> startOctet \<le> endOctet \<and>
     ips = map (\<lambda>k. p0 @ ''.'' @ p1 @ ''.'' @ p2 @ ''.'' @ Itoa k) [startOctet..endOctet] \<and>
     int (length ips) = endOctet - startOctet + 1 \<and>
     (\<forall>j<length ips.
        Split (ips ! j) (CHR ''.'') = [p0, p1, p2, Itoa (startOctet + int j)] \<and>
        Atoi (Itoa (startOctet + int j)) = Some (startOctet + int j)) \<and>
     length (Split ipRange (CHR ''-'')) = 2 \<and> endOctet < 2 ^ 63 - 1"
proof -
  let ?sp = "Split (TrimSpace (Split ipRange (CHR ''-'') ! 0)) (CHR ''.'')"
  let ?ep = "Split (TrimSpace (Split ipRange (CHR ''-'') ! 1)) (CHR ''.'')"
  let ?f = "\<lambda>k. ?sp ! 0 @ ''.'' @ ?sp ! 1 @ ''.'' @ ?sp ! 2 @ ''.'' @ Itoa k"
  from assms obtain so eo where
    l0: "length (Split ipRange (CHR ''-'')) = 2" and
    l: "length ?sp = 4" "length ?ep = 4" and
    a: "Atoi (?sp ! 3) = Some so" "Atoi (?ep ! 3) = Some eo" and
    e: "?sp ! 0 = ?ep ! 0" "?sp ! 1 = ?ep ! 1" "?sp ! 2 = ?ep ! 2" and
    le: "so \<le> eo" and
    loop: "ip_loop so eo (?sp ! 0 @ ''.'' @ ?sp ! 1 @ ''.'' @ ?sp ! 2 @ ''.'') [] = Some ips"
    by (auto simp: expandIPRange_def Let_def split: if_splits option.splits)
  from Atoi_range [OF a(1)] Atoi_range [OF a(2)] le ip_loop_Some_end [OF loop]
  have r: "- (2 ^ 63) \<le> so" "eo < 2 ^ 63 - 1" by auto
  from ip_loop_returns [OF r] loop have ips: "ips = map ?f [so..eo]"
    by simp
  then have len: "int (length ips) = eo - so + 1" using le by simp
  from length4 [OF l(1)] have s4: "?sp = [?sp ! 0, ?sp ! 1, ?sp ! 2, ?sp ! 3]" .
  from length4 [OF l(2)] e have e4: "?ep = [?sp ! 0, ?sp ! 1, ?sp ! 2, ?ep ! 3]" by simp
  have nodot: "CHR ''.'' \<notin> set (?sp ! 0)" "CHR ''.'' \<notin> set (?sp ! 1)" "CHR ''.'' \<notin> set (?sp ! 2)"
    using l(1) by (auto intro!: Split_parts_no_sep [of _ "TrimSpace (Split ipRange (CHR ''-'') ! 0)"])
  have each: "Split (ips ! j) (CHR ''.'') = [?sp ! 0, ?sp ! 1, ?sp ! 2, Itoa (so + int j)] \<and>
        Atoi (Itoa (so + int j)) = Some (so + int j)" if j: "j < length ips" for j
  proof -
    from j len have b: "so + int j \<le> eo" by simp
    with j ips have "ips ! j = ?f (so + int j)" by simp
    moreover from Split_join4 [OF nodot Itoa_no_dot [of "so + int j"]]
    have "Split (?f (so + int j)) (CHR ''.'') = [?sp ! 0, ?sp ! 1, ?sp ! 2, Itoa (so + int j)]"
      by simp
    moreover from r b have "Atoi (Itoa (so + int j)) = Some (so + int j)"
      by (intro Atoi_Itoa) simp_all
    ultimately show ?thesis by simp
  qed
  from s4 e4 a le ips len each l0 r(2) show ?thesis by blast
qed

lemma expandIPRange_no_octet_check:
  "expandIPRange ''1.2.3.7-1.2.3.999'' = Some (Inr (map (\<lambda>k. ''1.2.3.'' @ Itoa k) [7..999]))"
proof -
  have 1: "Split ''1.2.3.7-1.2.3.999'' (CHR ''-'') = [''1.2.3.7'', ''1.2.3.999'']" by code_simp
  have 2: "TrimSpace ''1.2.3.7'' = ''1.2.3.7''" by code_simp
  have 3: "TrimSpace ''1.2.3.999'' = ''1.2.3.999''" by code_simp
  have 4: "Split ''1.2.3.7'' (CHR ''.'') = [''1'', ''2'', ''3'', ''7'']" by code_simp
  have 5: "Split ''1.2.3.999'' (CHR ''.'') = [''1'', ''2'', ''3'', ''999'']" by code_simp
  have 6: "Atoi ''7'' = Some 7" by code_simp
  have 7: "Atoi ''999'' = Some 999" by code_simp
  have 8: "ip_loop 7 999 ''1.2.3.'' [] = Some ([] @ map (\<lambda>k. ''1.2.3.'' @ Itoa k) [7..999])"
    by (rule ip_loop_returns) simp_all
  show ?thesis
    by (simp add: expandIPRange_def Let_def 1 2 3 4 5 6 7 8)
qed


lemma length2: "length xs = 2 \<Longrightarrow> xs = [xs ! 0, xs ! 1]"
  by (auto simp: numeral_eq_Suc length_Suc_conv)

lemma expandIPRange_complete:
  assumes "Split ipRange (CHR ''-'') = [startIP, endIP]"
    "Split (TrimSpace startIP) (CHR ''.'') = [p0, p1, p2, p3]"
    "Split (TrimSpace endIP) (CHR ''.'') = [p0, p1, p2, q3]"
    "Atoi p3 = Some startOctet" "Atoi q3 = Some endOctet" "startOctet \<le> endOctet"
    "endOctet \<noteq> 2 ^ 63 - 1"
  shows "expandIPRange ipRange
         = Some (Inr (map (\<lambda>k. p0 @ ''.'' @ p1 @ ''.'' @ p2 @ ''.'' @ Itoa k) [startOctet..endOctet]))"
proof -
  from Atoi_range [OF assms(4)] Atoi_range [OF assms(5)] assms(7)
  have r: "- (2 ^ 63) \<le> startOctet" "endOctet < 2 ^ 63 - 1" by auto
  from ip_loop_returns [OF r, of "p0 @ ''.'' @ p1 @ ''.'' @ p2 @ ''.''" "[]"] assms(1-6)
  show ?thesis by (simp add: expandIPRange_def Let_def)
qed


lemma space_len_0:
  assumes "s \<noteq> []" "\<forall>r\<in>set runes. r \<noteq> [] \<longrightarrow> hd r \<noteq> hd s"
  shows "space_len runes s = 0"
proof -
  have "\<not> (r \<noteq> [] \<and> take (length r) s = r)" if r: "r \<in> set runes" for r
  proof
    assume h: "r \<noteq> [] \<and> take (length r) s = r"
    then have "hd r = hd (take (length r) s)" by simp
    also from h assms(1) have "\<dots> = hd s" by (cases r; cases s) simp_all
    finally show False using assms(2) r h by blast
  qed
  then have "filter (\<lambda>r. r \<noteq> [] \<and> take (length r) s = r) runes = []"
    by (simp add: filter_empty_conv)
  then show ?thesis by (simp add: space_len_def)
qed

lemma space_runes_heads:
  "\<forall>r\<in>set space_runes. r \<noteq> [] \<longrightarrow> \<not> isDigit (hd r)"
  "\<forall>r\<in>set (map rev space_runes). r \<noteq> [] \<longrightarrow> \<not> isDigit (hd r)"
  by (simp_all add: space_runes_def isDigit_def)

lemma space_len_digit:
  assumes "s \<noteq> []" "isDigit (hd s)"
  shows "space_len space_runes s = 0" "space_len (map rev space_runes) s = 0"
proof -
  from space_runes_heads(1) assms(2)
  have "\<forall>r\<in>set space_runes. r \<noteq> [] \<longrightarrow> hd r \<noteq> hd s" by metis
  from space_len_0 [OF assms(1) this] show "space_len space_runes s = 0" .
  from space_runes_heads(2) assms(2)
  have "\<forall>r\<in>set (map rev space_runes). r \<noteq> [] \<longrightarrow> hd r \<noteq> hd s" by metis
  from space_len_0 [OF assms(1) this] show "space_len (map rev space_runes) s = 0" .
qed

lemma TrimSpace_digits:
  assumes "s \<noteq> []" "isDigit (hd s)" "isDigit (last s)"
  shows "TrimSpace s = s"
proof -
  from space_len_digit(1) [OF assms(1,2)] have 1: "TrimLeft space_runes s = s"
    by (subst TrimLeft.simps) simp
  from assms(1,3) have "rev s \<noteq> []" "isDigit (hd (rev s))" by (simp_all add: hd_rev)
  from space_len_digit(2) [OF this]
  have "TrimLeft (map rev space_runes) (rev s) = rev s"
    by (subst TrimLeft.simps) simp
  with 1 show ?thesis by (simp add: TrimSpace_def)
qed

lemma digits_no_sep:
  "list_all isDigit p \<Longrightarrow> CHR ''.'' \<notin> set p \<and> CHR ''-'' \<notin> set p"
  using isDigit_not_sign by (auto simp: list_all_iff)

lemma last_digits_of: "isDigit (last (digits_of n))"
  using digits_of_digits [of n] digits_of_nonempty [of n]
  by (auto simp: list_all_iff)


lemma expandIPRange_any_octets:
  assumes d: "p0 \<noteq> []" "list_all isDigit p0" "list_all isDigit p1" "list_all isDigit p2"
    and mn: "0 \<le> m" "m \<le> n" "n < 2 ^ 63 - 1"
  shows "expandIPRange (p0 @ ''.'' @ p1 @ ''.'' @ p2 @ ''.'' @ Itoa m @ ''-''
                        @ p0 @ ''.'' @ p1 @ ''.'' @ p2 @ ''.'' @ Itoa n)
         = Some (Inr (map (\<lambda>k. p0 @ ''.'' @ p1 @ ''.'' @ p2 @ ''.'' @ Itoa k) [m..n]))"
proof -
  let ?a = "\<lambda>k. p0 @ ''.'' @ p1 @ ''.'' @ p2 @ ''.'' @ Itoa k"
  have it: "Itoa k = digits_of (nat k)" if "0 \<le> k" for k
    using that by (simp add: Itoa_def)
  have nd: "CHR ''-'' \<notin> set (?a k)" if "0 \<le> k" for k
    using digits_no_sep [OF d(2)] digits_no_sep [OF d(3)] digits_no_sep [OF d(4)]
      digits_no_sep [OF digits_of_digits [of "nat k"]] it [OF that]
    by simp
  have tr: "TrimSpace (?a k) = ?a k" if "0 \<le> k" for k
  proof (rule TrimSpace_digits)
    show "?a k \<noteq> []" using d(1) by simp
    from d(1,2) show "isDigit (hd (?a k))" by (cases p0) simp_all
    from last_digits_of [of "nat k"] digits_of_nonempty [of "nat k"] it [OF that]
    show "isDigit (last (?a k))" by simp
  qed
  have sp: "Split (?a k) (CHR ''.'') = [p0, p1, p2, Itoa k]" for k
    using Split_join4 [of "CHR ''.''" p0 p1 p2 "Itoa k"]
      digits_no_sep [OF d(2)] digits_no_sep [OF d(3)] digits_no_sep [OF d(4)] Itoa_no_dot [of k]
    by simp
  from mn have n0: "0 \<le> n" by simp
  have "Split (?a m @ CHR ''-'' # ?a n) (CHR ''-'') = [?a m, ?a n]"
    using Split_first [OF nd [OF mn(1)], of "?a n"] Split_no_sep [OF nd [OF n0]] by simp
  then have 1: "Split (?a m @ ''-'' @ ?a n) (CHR ''-'') = [?a m, ?a n]" by simp
  from mn have at: "Atoi (Itoa m) = Some m" "Atoi (Itoa n) = Some n"
    by (auto intro!: Atoi_Itoa)
  from mn have ne: "n \<noteq> 2 ^ 63 - 1" by simp
  from expandIPRange_complete [OF 1 _ _ at mn(2) ne, of p0 p1 p2]
    tr [OF mn(1)] tr [OF n0] sp
  show ?thesis by simp
qed


text \<open>
  C9. When \<^verbatim>\<open>expandIPRange\<close> succeeds, the input had two parts around one "-", both
  addresses had four parts with the same first three, the last parts read as numbers
  \<open>startOctet \<le> endOctet\<close>, and the result lists the addresses with these three parts and
  the last part running from \<open>startOctet\<close> to \<open>endOctet\<close> in increasing order,
  \<open>endOctet - startOctet + 1\<close> of them: the address at index \<open>j\<close> splits into the three
  parts and a fourth that reads as \<open>startOctet + j\<close>. Conversely \<^verbatim>\<open>expandIPRange\<close>
  succeeds, with this list, on every input of that shape whose end is not the largest
  \<^verbatim>\<open>int\<close>: nothing else is asked of the input, a single address (\<open>startOctet = endOctet\<close>)
  is a range, and no part is compared with 255. So for all strings of digits \<open>a\<close>, \<open>b\<close>, \<open>c\<close>
  (\<open>a\<close> not empty) and all numbers \<open>0 \<le> m \<le> n\<close> below the largest \<^verbatim>\<open>int\<close>, the range
  from \<open>a.b.c.m\<close> to \<open>a.b.c.n\<close> gives the \<open>n - m + 1\<close> addresses \<open>a.b.c.m\<close> to \<open>a.b.c.n\<close>;
  the range from 1.2.3.7 to 1.2.3.999 gives 993 addresses.
\<close>

theorem expandIPRange_lists_the_range:
  "(expandIPRange ipRange = Some (Inr ips) \<longrightarrow>
     (\<exists>p0 p1 p2 p3 q3 startOctet endOctet.
        Split (TrimSpace (Split ipRange (CHR ''-'') ! 0)) (CHR ''.'') = [p0, p1, p2, p3] \<and>
        Split (TrimSpace (Split ipRange (CHR ''-'') ! 1)) (CHR ''.'') = [p0, p1, p2, q3] \<and>
        Atoi p3 = Some startOctet \<and> Atoi q3 = Some endOctet \<and> startOctet \<le> endOctet \<and>
        ips = map (\<lambda>k. p0 @ ''.'' @ p1 @ ''.'' @ p2 @ ''.'' @ Itoa k) [startOctet..endOctet] \<and>
        int (length ips) = endOctet - startOctet + 1 \<and>
        (\<forall>j<length ips.
           Split (ips ! j) (CHR ''.'') = [p0, p1, p2, Itoa (startOctet + int j)] \<and>
           Atoi (Itoa (startOctet + int j)) = Some (startOctet + int j)) \<and>
        length (Split ipRange (CHR ''-'')) = 2 \<and> endOctet < 2 ^ 63 - 1)) \<and>
   (Split ipRange (CHR ''-'') = [startIP, endIP] \<and>
    Split (TrimSpace startIP) (CHR ''.'') = [s0, s1, s2, s3] \<and>
    Split (TrimSpace endIP) (CHR ''.'') = [s0, s1, s2, e3] \<and>
    Atoi s3 = Some lo \<and> Atoi e3 = Some hi \<and> lo \<le> hi \<and> hi \<noteq> 2 ^ 63 - 1 \<longrightarrow>
    expandIPRange ipRange
      = Some (Inr (map (\<lambda>k. s0 @ ''.'' @ s1 @ ''.'' @ s2 @ ''.'' @ Itoa k) [lo..hi]))) \<and>
   (a \<noteq> [] \<and> list_all isDigit a \<and> list_all isDigit b \<and> list_all isDigit c \<and>
    0 \<le> m \<and> m \<le> n \<and> n < 2 ^ 63 - 1 \<longrightarrow>
    expandIPRange (a @ ''.'' @ b @ ''.'' @ c @ ''.'' @ Itoa m @ ''-''
                   @ a @ ''.'' @ b @ ''.'' @ c @ ''.'' @ Itoa n)
      = Some (Inr (map (\<lambda>k. a @ ''.'' @ b @ ''.'' @ c @ ''.'' @ Itoa k) [m..n]))) \<and>
   expandIPRange ''1.2.3.7-1.2.3.999'' = Some (Inr (map (\<lambda>k. ''1.2.3.'' @ Itoa k) [7..999]))"
proof (intro conjI impI)
  assume "expandIPRange ipRange = Some (Inr ips)"
  then show "\<exists>p0 p1 p2 p3 q3 startOctet endOctet.
        Split (TrimSpace (Split ipRange (CHR ''-'') ! 0)) (CHR ''.'') = [p0, p1, p2, p3] \<and>
        Split (TrimSpace (Split ipRange (CHR ''-'') ! 1)) (CHR ''.'') = [p0, p1, p2, q3] \<and>
        Atoi p3 = Some startOctet \<and> Atoi q3 = Some endOctet \<and> startOctet \<le> endOctet \<and>
        ips = map (\<lambda>k. p0 @ ''.'' @ p1 @ ''.'' @ p2 @ ''.'' @ Itoa k) [startOctet..endOctet] \<and>
        int (length ips) = endOctet - startOctet + 1 \<and>
        (\<forall>j<length ips.
           Split (ips ! j) (CHR ''.'') = [p0, p1, p2, Itoa (startOctet + int j)] \<and>
           Atoi (Itoa (startOctet + int j)) = Some (startOctet + int j)) \<and>
        length (Split ipRange (CHR ''-'')) = 2 \<and> endOctet < 2 ^ 63 - 1"
    by (rule expandIPRange_success)
next
  assume h: "Split ipRange (CHR ''-'') = [startIP, endIP] \<and>
    Split (TrimSpace startIP) (CHR ''.'') = [s0, s1, s2, s3] \<and>
    Split (TrimSpace endIP) (CHR ''.'') = [s0, s1, s2, e3] \<and>
    Atoi s3 = Some lo \<and> Atoi e3 = Some hi \<and> lo \<le> hi \<and> hi \<noteq> 2 ^ 63 - 1"
  then show "expandIPRange ipRange
      = Some (Inr (map (\<lambda>k. s0 @ ''.'' @ s1 @ ''.'' @ s2 @ ''.'' @ Itoa k) [lo..hi]))"
    by (intro expandIPRange_complete [of ipRange startIP endIP s0 s1 s2 s3 e3 lo hi]) simp_all
next
  assume "a \<noteq> [] \<and> list_all isDigit a \<and> list_all isDigit b \<and> list_all isDigit c \<and>
    0 \<le> m \<and> m \<le> n \<and> n < 2 ^ 63 - 1"
  then show "expandIPRange (a @ ''.'' @ b @ ''.'' @ c @ ''.'' @ Itoa m @ ''-''
                   @ a @ ''.'' @ b @ ''.'' @ c @ ''.'' @ Itoa n)
      = Some (Inr (map (\<lambda>k. a @ ''.'' @ b @ ''.'' @ c @ ''.'' @ Itoa k) [m..n]))"
    by (intro expandIPRange_any_octets) simp_all
next
  show "expandIPRange ''1.2.3.7-1.2.3.999'' = Some (Inr (map (\<lambda>k. ''1.2.3.'' @ Itoa k) [7..999]))"
    by (rule expandIPRange_no_octet_check)
qed

theorem expandIPRange_witness:
  "expandIPRange ''1.2.3.7 - 1.2.3.9'' = Some (Inr [''1.2.3.7'', ''1.2.3.8'', ''1.2.3.9'']) \<and>
   (\<exists>p0 p1 p2 p3 q3 startOctet endOctet.
      Split (TrimSpace (Split ''1.2.3.7 - 1.2.3.9'' (CHR ''-'') ! 0)) (CHR ''.'') = [p0, p1, p2, p3] \<and>
      Split (TrimSpace (Split ''1.2.3.7 - 1.2.3.9'' (CHR ''-'') ! 1)) (CHR ''.'') = [p0, p1, p2, q3] \<and>
      Atoi p3 = Some startOctet \<and> Atoi q3 = Some endOctet \<and> startOctet \<le> endOctet \<and>
      [''1.2.3.7'', ''1.2.3.8'', ''1.2.3.9'']
        = map (\<lambda>k. p0 @ ''.'' @ p1 @ ''.'' @ p2 @ ''.'' @ Itoa k) [startOctet..endOctet] \<and>
      int (length [''1.2.3.7'', ''1.2.3.8'', ''1.2.3.9'']) = endOctet - startOctet + 1 \<and>
      (\<forall>j<length [''1.2.3.7'', ''1.2.3.8'', ''1.2.3.9''].
         Split ([''1.2.3.7'', ''1.2.3.8'', ''1.2.3.9''] ! j) (CHR ''.'')
           = [p0, p1, p2, Itoa (startOctet + int j)] \<and>
         Atoi (Itoa (startOctet + int j)) = Some (startOctet + int j)) \<and>
      length (Split ''1.2.3.7 - 1.2.3.9'' (CHR ''-'')) = 2 \<and> endOctet < 2 ^ 63 - 1) \<and>
   expandIPRange ''10.0.0.300-10.0.0.300'' = Some (Inr [''10.0.0.300'']) \<and>
   expandIPRange ''999.0.1.256-999.0.1.258''
     = Some (Inr [''999.0.1.256'', ''999.0.1.257'', ''999.0.1.258''])"
proof -
  note t = expandIPRange_lists_the_range
  have "Split ''1.2.3.7 - 1.2.3.9'' (CHR ''-'') = [''1.2.3.7 '', '' 1.2.3.9''] \<and>
    Split (TrimSpace ''1.2.3.7 '') (CHR ''.'') = [''1'', ''2'', ''3'', ''7''] \<and>
    Split (TrimSpace '' 1.2.3.9'') (CHR ''.'') = [''1'', ''2'', ''3'', ''9''] \<and>
    Atoi ''7'' = Some 7 \<and> Atoi ''9'' = Some 9 \<and> (7::int) \<le> 9 \<and> (9::int) \<noteq> 2 ^ 63 - 1"
    by code_simp
  from t [THEN conjunct2, THEN conjunct1, THEN mp, OF this]
  have "expandIPRange ''1.2.3.7 - 1.2.3.9''
        = Some (Inr (map (\<lambda>k. ''1'' @ ''.'' @ ''2'' @ ''.'' @ ''3'' @ ''.'' @ Itoa k) [7..9]))" .
  moreover have "map (\<lambda>k. ''1'' @ ''.'' @ ''2'' @ ''.'' @ ''3'' @ ''.'' @ Itoa k) [7..9]
        = [''1.2.3.7'', ''1.2.3.8'', ''1.2.3.9'']" by code_simp
  ultimately have h: "expandIPRange ''1.2.3.7 - 1.2.3.9''
        = Some (Inr [''1.2.3.7'', ''1.2.3.8'', ''1.2.3.9''])" by simp
  note 1 = t [of "''1.2.3.7 - 1.2.3.9''" "[''1.2.3.7'', ''1.2.3.8'', ''1.2.3.9'']",
      THEN conjunct1, THEN mp, OF h]
  have "''10'' \<noteq> [] \<and> list_all isDigit ''10'' \<and> list_all isDigit ''0'' \<and> list_all isDigit ''0'' \<and>
    (0::int) \<le> 300 \<and> (300::int) \<le> 300 \<and> (300::int) < 2 ^ 63 - 1"
    by code_simp
  from t [THEN conjunct2, THEN conjunct2, THEN conjunct1, THEN mp, OF this]
  have "expandIPRange (''10'' @ ''.'' @ ''0'' @ ''.'' @ ''0'' @ ''.'' @ Itoa 300 @ ''-''
                   @ ''10'' @ ''.'' @ ''0'' @ ''.'' @ ''0'' @ ''.'' @ Itoa 300)
      = Some (Inr (map (\<lambda>k. ''10'' @ ''.'' @ ''0'' @ ''.'' @ ''0'' @ ''.'' @ Itoa k) [300..300]))" .
  moreover have "''10'' @ ''.'' @ ''0'' @ ''.'' @ ''0'' @ ''.'' @ Itoa 300 @ ''-''
                   @ ''10'' @ ''.'' @ ''0'' @ ''.'' @ ''0'' @ ''.'' @ Itoa 300 = ''10.0.0.300-10.0.0.300''"
    by code_simp
  moreover have "map (\<lambda>k. ''10'' @ ''.'' @ ''0'' @ ''.'' @ ''0'' @ ''.'' @ Itoa k) [300..300]
      = [''10.0.0.300'']" by code_simp
  ultimately have 2: "expandIPRange ''10.0.0.300-10.0.0.300'' = Some (Inr [''10.0.0.300''])"
    by simp
  have "''999'' \<noteq> [] \<and> list_all isDigit ''999'' \<and> list_all isDigit ''0'' \<and> list_all isDigit ''1'' \<and>
    (0::int) \<le> 256 \<and> (256::int) \<le> 258 \<and> (258::int) < 2 ^ 63 - 1"
    by code_simp
  from t [THEN conjunct2, THEN conjunct2, THEN conjunct1, THEN mp, OF this]
  have "expandIPRange (''999'' @ ''.'' @ ''0'' @ ''.'' @ ''1'' @ ''.'' @ Itoa 256 @ ''-''
                   @ ''999'' @ ''.'' @ ''0'' @ ''.'' @ ''1'' @ ''.'' @ Itoa 258)
      = Some (Inr (map (\<lambda>k. ''999'' @ ''.'' @ ''0'' @ ''.'' @ ''1'' @ ''.'' @ Itoa k) [256..258]))" .
  moreover have "''999'' @ ''.'' @ ''0'' @ ''.'' @ ''1'' @ ''.'' @ Itoa 256 @ ''-''
                   @ ''999'' @ ''.'' @ ''0'' @ ''.'' @ ''1'' @ ''.'' @ Itoa 258
                 = ''999.0.1.256-999.0.1.258''"
    by code_simp
  moreover have "map (\<lambda>k. ''999'' @ ''.'' @ ''0'' @ ''.'' @ ''1'' @ ''.'' @ Itoa k) [256..258]
      = [''999.0.1.256'', ''999.0.1.257'', ''999.0.1.258'']" by code_simp
  ultimately have 3: "expandIPRange ''999.0.1.256-999.0.1.258''
     = Some (Inr [''999.0.1.256'', ''999.0.1.257'', ''999.0.1.258''])"
    by simp
  from h 1 2 3 show ?thesis by (intro conjI)
qed

section \<open>Properties of the scan engine\<close>

subsection \<open>Steps and runs\<close>

lemma run_invariant:
  assumes step: "\<And>a st st'. P st \<Longrightarrow> step s a st = Some st' \<Longrightarrow> P st'"
  shows "P st \<Longrightarrow> run s as st = Some st' \<Longrightarrow> P st'"
proof (induction as arbitrary: st)
  case Nil
  then show ?case by simp
next
  case (Cons a as)
  from Cons.prems(2) obtain st1 where 1: "step s a st = Some st1" and 2: "run s as st1 = Some st'"
    by (auto split: option.splits)
  from step [OF Cons.prems(1) 1] have "P st1" .
  from Cons.IH [OF this 2] show ?case .
qed


lemma step_cases [consumes 1, case_names Cancel WorkerCancelled WorkerRecv WorkerRecvClosed
    WorkerProbeIdle WorkerProbeOpen WorkerSend WorkerHandoff FeederSend FeederHandoff
    FeederCancelled FeederClose CloserWait CloserCloseResults CloserCloseDone MainRecv
    MainBanner MainRangeEnd MainDone MainStopProgress MainReturn]:
  assumes "step s a st = Some st'"
  obtains
    e where "a = Cancel e" "ctx s = CancelCtx" "cancelled st = None"
      "st' = st\<lparr>cancelled := Some e\<rparr>"
  | i where "a = WorkerCancelled i" "i < length (workers st)" "cancelled st \<noteq> None"
      "workers st ! i = Idle \<or> (\<exists>port. workers st ! i = Sending port)"
      "st' = worker_exit i st"
  | i port rest where "a = WorkerRecv i" "i < length (workers st)" "workers st ! i = Idle"
      "ports st = port # rest"
      "st' = st\<lparr>ports := rest, workers := (workers st)[i := Probing port],
                 probed := probed st @ [port]\<rparr>"
  | i where "a = WorkerRecv i" "i < length (workers st)" "workers st ! i = Idle"
      "ports st = []" "ports_closed st" "st' = worker_exit i st"
  | i d port where "a = WorkerProbe i d" "i < length (workers st)"
      "workers st ! i = Probing port" "isPortOpen d \<noteq> (True, None)"
      "st' = st\<lparr>workers := (workers st)[i := Idle]\<rparr>"
  | i d port where "a = WorkerProbe i d" "i < length (workers st)"
      "workers st ! i = Probing port" "isPortOpen d = (True, None)"
      "st' = st\<lparr>workers := (workers st)[i := Sending port],
                 connected := connected st @ [port]\<rparr>"
  | i port where "a = WorkerSend i" "i < length (workers st)" "workers st ! i = Sending port"
      "\<not> results_closed st" "length (results st) < capacity s"
      "st' = st\<lparr>results := results st @ [port], workers := (workers st)[i := Idle]\<rparr>"
  | i port where "a = WorkerHandoff i" "i < length (workers st)"
      "workers st ! i = Sending port" "\<not> results_closed st" "capacity s = 0"
      "main st = Collecting"
      "st' = st\<lparr>workers := (workers st)[i := Idle], openPorts := openPorts st @ [port],
                 main := Bannering port\<rparr>"
  | port where "a = FeederSend" "feeder st = Feeding port" "port \<le> endPort s"
      "length (ports st) < capacity s"
      "st' = st\<lparr>ports := ports st @ [port], feeder := Feeding (int64 (port + 1))\<rparr>"
  | i port where "a = FeederHandoff i" "feeder st = Feeding port" "port \<le> endPort s"
      "capacity s = 0" "i < length (workers st)" "workers st ! i = Idle"
      "st' = st\<lparr>workers := (workers st)[i := Probing port], probed := probed st @ [port],
                 feeder := Feeding (int64 (port + 1))\<rparr>"
  | port where "a = FeederCancelled" "feeder st = Feeding port" "port \<le> endPort s"
      "cancelled st \<noteq> None" "st' = st\<lparr>ports_closed := True, feeder := FeederDone\<rparr>"
  | port where "a = FeederClose" "feeder st = Feeding port" "\<not> port \<le> endPort s"
      "st' = st\<lparr>ports_closed := True, feeder := FeederDone\<rparr>"
  | "a = CloserWait" "closer st = Waiting" "wg st = 0" "st' = st\<lparr>closer := ClosingResults\<rparr>"
  | "a = CloserCloseResults" "closer st = ClosingResults"
      "st' = st\<lparr>results_closed := True, closer := ClosingDone\<rparr>"
  | "a = CloserCloseDone" "closer st = ClosingDone"
      "st' = st\<lparr>done_closed := True, closer := CloserDone\<rparr>"
  | port rest where "a = MainRecv" "main st = Collecting" "results st = port # rest"
      "st' = st\<lparr>results := rest, openPorts := openPorts st @ [port], main := Bannering port\<rparr>"
  | port where "a = MainBanner" "main st = Bannering port"
      "st' = st\<lparr>banners := banners st @ [port], main := Collecting\<rparr>"
  | "a = MainRangeEnd" "main st = Collecting" "results st = []" "results_closed st"
      "st' = st\<lparr>main := WaitingDone\<rparr>"
  | "a = MainDone" "main st = WaitingDone" "done_closed st"
      "st' = st\<lparr>main := (if showProgress s then StoppingProgress else Checking)\<rparr>"
  | "a = MainStopProgress" "main st = StoppingProgress" "st' = st\<lparr>main := Checking\<rparr>"
  | "a = MainReturn" "main st = Checking"
      "st' = st\<lparr>main := Returned (openPorts st) (map_option ScanCancelled (cancelled st))\<rparr>"
proof -
  from assms have f: "fire s a st = Some st'" and nr: "\<not> returned (main st)"
    by (auto simp: step_def split: if_splits)
  show thesis
  proof (cases a)
    case (Cancel e)
    with f that(1) show ?thesis by (auto split: if_splits)
  next
    case (WorkerCancelled i)
    with f that(2) show ?thesis by (auto split: if_splits worker.splits)
  next
    case (WorkerRecv i)
    with f that(3,4) show ?thesis by (auto split: if_splits list.splits)
  next
    case (WorkerProbe i d)
    with f that(5,6) show ?thesis
      by (cases "isPortOpen d") (auto split: if_splits worker.splits option.splits)
  next
    case (WorkerSend i)
    with f that(7) show ?thesis by (auto split: if_splits worker.splits)
  next
    case (WorkerHandoff i)
    with f that(8) show ?thesis by (auto split: if_splits worker.splits)
  next
    case FeederSend
    with f that(9) show ?thesis by (auto split: if_splits feeder.splits)
  next
    case (FeederHandoff i)
    with f that(10) show ?thesis by (auto split: if_splits feeder.splits)
  next
    case FeederCancelled
    with f that(11) show ?thesis by (auto split: if_splits feeder.splits)
  next
    case FeederClose
    with f that(12) show ?thesis by (auto split: if_splits feeder.splits)
  next
    case CloserWait
    with f that(13) show ?thesis by (auto split: if_splits)
  next
    case CloserCloseResults
    with f that(14) show ?thesis by (auto split: if_splits)
  next
    case CloserCloseDone
    with f that(15) show ?thesis by (auto split: if_splits)
  next
    case MainRecv
    with f that(16) show ?thesis by (auto split: if_splits list.splits)
  next
    case MainBanner
    with f that(17) show ?thesis by (auto split: collector.splits)
  next
    case MainRangeEnd
    with f that(18) show ?thesis by (auto split: if_splits)
  next
    case MainDone
    with f that(19) show ?thesis by (auto split: if_splits)
  next
    case MainStopProgress
    with f that(20) show ?thesis by (auto split: if_splits)
  next
    case MainReturn
    with f that(21) show ?thesis by (auto split: if_splits option.splits)
  qed
qed


lemma step_not_returned: "step s a st = Some st' \<Longrightarrow> \<not> returned (main st)"
  by (auto simp: step_def split: if_splits)

lemma return_inv_step: "return_inv st \<Longrightarrow> step s a st = Some st' \<Longrightarrow> return_inv st'"
  by (frule step_not_returned, erule step_cases)
     (auto simp: return_inv_def worker_exit_def split: collector.splits)


subsection \<open>The invariants hold along every run\<close>

lemma live_count_pos: "i < length ws \<Longrightarrow> ws ! i \<noteq> Exited \<Longrightarrow> 0 < live_count ws"
  by (auto simp: live_count_def filter_empty_conv intro: nth_mem)

lemma live_count_update:
  "i < length ws \<Longrightarrow>
   live_count (ws[i := w]) =
     (if ws ! i = Exited then (if w = Exited then live_count ws else live_count ws + 1)
      else (if w = Exited then live_count ws - 1 else live_count ws))"
proof (induction ws arbitrary: i)
  case Nil
  then show ?case by simp
next
  case (Cons x ws)
  show ?case
  proof (cases i)
    case 0
    then show ?thesis by (simp add: live_count_def)
  next
    case (Suc j)
    with Cons.prems have j: "j < length ws" by simp
    from live_count_pos [OF j] have "ws ! j \<noteq> Exited \<Longrightarrow> 0 < live_count ws" .
    with Cons.IH [OF j] Suc show ?thesis by (auto simp: live_count_def)
  qed
qed

lemma pipeline_inv_step: "pipeline_inv st \<Longrightarrow> step s a st = Some st' \<Longrightarrow> pipeline_inv st'"
proof (erule step_cases)
qed (auto simp: pipeline_inv_def worker_exit_def live_count_update dest: live_count_pos)


lemma sum_list_map_update:
  fixes f :: "'a \<Rightarrow> 'b::comm_monoid_add"
  shows "i < length ws \<Longrightarrow>
         sum_list (map f (ws[i := w])) + f (ws ! i) = sum_list (map f ws) + f w"
proof (induction ws arbitrary: i)
  case Nil
  then show ?case by simp
next
  case (Cons x ws)
  show ?case
  proof (cases i)
    case 0
    then show ?thesis by (simp add: ac_simps)
  next
    case (Suc j)
    with Cons.prems have j: "j < length ws" by simp
    from Cons.IH [OF j] Suc show ?thesis by (simp add: add.assoc)
  qed
qed

lemma sum_list_map_drop:
  fixes f :: "'a \<Rightarrow> 'b multiset"
  assumes "i < length ws" "f w \<subseteq># f (ws ! i)"
  shows "sum_list (map f (ws[i := w])) \<subseteq># sum_list (map f ws)"
proof -
  from sum_list_map_update [OF assms(1), of f w]
  have "sum_list (map f (ws[i := w])) + f (ws ! i) \<subseteq># sum_list (map f ws) + f (ws ! i)"
    using assms(2) by (simp add: subset_mset.add_left_mono)
  then show ?thesis by simp
qed

lemma in_workers_update:
  "i < length ws \<Longrightarrow> in_workers (ws[i := w]) + held (ws ! i) = in_workers ws + held w"
  by (simp add: in_workers_def sum_list_map_update)

lemma in_workers_drop:
  "i < length ws \<Longrightarrow> held w \<subseteq># held (ws ! i) \<Longrightarrow> in_workers (ws[i := w]) \<subseteq># in_workers ws"
  by (simp add: in_workers_def sum_list_map_drop)

lemma int64_succ: "- (2 ^ 63) \<le> x \<Longrightarrow> x < 2 ^ 63 - 1 \<Longrightarrow> int64 (x + 1) = x + 1"
  by (rule int64_id) simp_all

lemma feed_inv_step:
  assumes v: "no_wrap s" and inv: "feed_inv s st" and st: "step s a st = Some st'"
  shows "feed_inv s st'"
  using st
proof (cases rule: step_cases)
  case (FeederSend port)
  with v inv have "int64 (port + 1) = port + 1"
    by (intro int64_succ) (auto simp: feed_inv_def no_wrap_def)
  with inv FeederSend show ?thesis
    by (auto simp: feed_inv_def)
next
  case (FeederHandoff i port)
  with v inv have 1: "int64 (port + 1) = port + 1"
    by (intro int64_succ) (auto simp: feed_inv_def no_wrap_def)
  with inv FeederHandoff show ?thesis
    by (auto simp: feed_inv_def)
qed (use inv in \<open>auto simp: feed_inv_def worker_exit_def split: feeder.splits\<close>)

lemma flow_inv_drop:
  assumes "flow_inv st" "i < length (workers st)" "held w \<subseteq># held (workers st ! i)"
    "openPorts st' = openPorts st" "results st' = results st" "probed st' = probed st"
    "workers st' = (workers st)[i := w]"
  shows "flow_inv st'"
proof -
  from in_workers_drop [OF assms(2,3)]
  have "mset (openPorts st) + mset (results st) + in_workers ((workers st)[i := w])
        \<subseteq># mset (openPorts st) + mset (results st) + in_workers (workers st)"
    by (simp add: subset_mset.add_left_mono)
  also have "\<dots> \<subseteq># mset (probed st)" using assms(1) by (simp add: flow_inv_def)
  finally show ?thesis using assms(4-7) by (simp add: flow_inv_def)
qed

lemma flow_inv_step:
  assumes inv: "flow_inv st" and st: "step s a st = Some st'"
  shows "flow_inv st'"
  using st
proof (cases rule: step_cases)
  case (WorkerCancelled i)
  then show ?thesis
    by (intro flow_inv_drop [OF inv, of i Exited]) (auto simp: worker_exit_def held_def)
next
  case (WorkerRecv i port rest)
  from in_workers_update [OF WorkerRecv(2), of "Probing port"] WorkerRecv(3)
  have "in_workers ((workers st)[i := Probing port]) = in_workers (workers st) + {#port#}"
    by (simp add: held_def)
  with inv WorkerRecv show ?thesis
    by (simp add: flow_inv_def ac_simps)
next
  case (WorkerRecvClosed i)
  then show ?thesis
    by (intro flow_inv_drop [OF inv, of i Exited]) (auto simp: worker_exit_def held_def)
next
  case (WorkerProbeIdle i d port)
  then show ?thesis
    by (intro flow_inv_drop [OF inv, of i Idle]) (auto simp: held_def)
next
  case (WorkerProbeOpen i d port)
  then show ?thesis
    by (intro flow_inv_drop [OF inv, of i "Sending port"]) (auto simp: held_def)
next
  case (WorkerSend i port)
  from in_workers_update [OF WorkerSend(2), of Idle] WorkerSend(3)
  have "in_workers (workers st) = in_workers ((workers st)[i := Idle]) + {#port#}"
    by (simp add: held_def)
  with inv WorkerSend show ?thesis
    by (simp add: flow_inv_def ac_simps)
next
  case (WorkerHandoff i port)
  from in_workers_update [OF WorkerHandoff(2), of Idle] WorkerHandoff(3)
  have "in_workers (workers st) = in_workers ((workers st)[i := Idle]) + {#port#}"
    by (simp add: held_def)
  with inv WorkerHandoff show ?thesis
    by (simp add: flow_inv_def ac_simps)
next
  case (FeederHandoff i port)
  from in_workers_update [OF FeederHandoff(5), of "Probing port"] FeederHandoff(6)
  have "in_workers ((workers st)[i := Probing port]) = in_workers (workers st) + {#port#}"
    by (simp add: held_def)
  with inv FeederHandoff show ?thesis
    by (simp add: flow_inv_def ac_simps)
next
  case (MainRecv port rest)
  with inv show ?thesis by (simp add: flow_inv_def ac_simps)
qed (use inv in \<open>simp_all add: flow_inv_def\<close>)


subsection \<open>The scheduler's action is enabled\<close>

lemma first_live: "0 < live_count ws \<Longrightarrow> first_live ws < length ws \<and> ws ! first_live ws \<noteq> Exited"
  by (induction ws) (auto simp: live_count_def)

lemma worker_action_enabled:
  assumes inv: "pipeline_inv st" and i: "i < length (workers st)" "workers st ! i \<noteq> Exited"
    and m: "main st = Collecting" "results st = []" "\<not> results_closed st"
  shows "\<exists>st'. fire s (worker_action s st i) st = Some st'"
proof (cases "workers st ! i")
  case Idle
  show ?thesis
  proof (cases "feeder st")
    case (Feeding port)
    with Idle i inv show ?thesis
      by (cases "ports st") (auto simp: worker_action_def pipeline_inv_def)
  next
    case FeederDone
    with Idle i inv show ?thesis
      by (cases "ports st") (auto simp: worker_action_def pipeline_inv_def)
  qed
next
  case (Probing port)
  with i show ?thesis
    by (auto simp: worker_action_def isPortOpen_def refused_error_def)
next
  case (Sending port)
  with i m show ?thesis by (auto simp: worker_action_def)
next
  case Exited
  with i show ?thesis by simp
qed

lemma next_action_enabled:
  assumes inv: "pipeline_inv st" and nr: "\<not> returned (main st)"
  shows "\<exists>st'. step s (next_action s st) st = Some st'"
proof (cases "main st")
  case Collecting
  show ?thesis
  proof (cases "results st \<noteq> [] \<or> results_closed st \<or> closer st = ClosingResults \<or> wg st = 0")
    case True
    with Collecting inv show ?thesis
      by (cases "results st"; cases "closer st")
         (auto simp: next_action_def step_def pipeline_inv_def)
  next
    case False
    with inv have "0 < live_count (workers st)" by (simp add: pipeline_inv_def)
    from first_live [OF this] worker_action_enabled [OF inv _ _ Collecting, of "first_live (workers st)" s] False
    have "\<exists>st'. fire s (worker_action s st (first_live (workers st))) st = Some st'" by blast
    with False Collecting show ?thesis by (simp add: next_action_def step_def)
  qed
next
  case (Bannering port)
  then show ?thesis by (simp add: next_action_def step_def)
next
  case WaitingDone
  with inv show ?thesis by (auto simp: next_action_def step_def pipeline_inv_def)
next
  case StoppingProgress
  then show ?thesis by (simp add: next_action_def step_def)
next
  case Checking
  then show ?thesis by (simp add: next_action_def step_def)
next
  case (Returned ps e)
  with nr show ?thesis by simp
qed


subsection \<open>Every step lowers the measure\<close>

lemma weights_update:
  "i < length ws \<Longrightarrow>
   sum_list (map weight (ws[i := w])) + weight (ws ! i) = sum_list (map weight ws) + weight w"
  by (rule sum_list_map_update)

lemma feeder_next:
  "no_wrap s \<Longrightarrow> feeder_lb s st \<Longrightarrow> feeder st = Feeding port \<Longrightarrow> port \<le> endPort s \<Longrightarrow>
   int64 (port + 1) = port + 1"
  by (rule int64_succ) (auto simp: no_wrap_def feeder_lb_def)

lemma feeder_lb_step:
  assumes "no_wrap s" "feeder_lb s st" and st: "step s a st = Some st'"
  shows "feeder_lb s st'"
  using st
proof (cases rule: step_cases)
  case (FeederSend port)
  with assms feeder_next [OF assms(1,2) FeederSend(2,3)] show ?thesis
    by (simp add: feeder_lb_def)
next
  case (FeederHandoff i port)
  with assms feeder_next [OF assms(1,2) FeederHandoff(2,3)] show ?thesis
    by (simp add: feeder_lb_def)
qed (use assms(2) in \<open>simp_all add: feeder_lb_def worker_exit_def\<close>)

lemma work_left_step:
  assumes "no_wrap s" "feeder_lb s st" and st: "step s a st = Some st'"
  shows "work_left s st' < work_left s st"
  using st
proof (cases rule: step_cases)
  case (WorkerCancelled i)
  from weights_update [OF WorkerCancelled(2), of Exited] WorkerCancelled(4,5) show ?thesis
    by (auto simp: work_left_def control_left_def worker_exit_def)
next
  case (WorkerRecv i port rest)
  from weights_update [OF WorkerRecv(2), of "Probing port"] WorkerRecv(3,4,5) show ?thesis
    by (simp add: work_left_def control_left_def)
next
  case (WorkerRecvClosed i)
  from weights_update [OF WorkerRecvClosed(2), of Exited] WorkerRecvClosed(3,6) show ?thesis
    by (simp add: work_left_def control_left_def worker_exit_def)
next
  case (WorkerProbeIdle i d port)
  from weights_update [OF WorkerProbeIdle(2), of Idle] WorkerProbeIdle(3,5) show ?thesis
    by (simp add: work_left_def control_left_def)
next
  case (WorkerProbeOpen i d port)
  from weights_update [OF WorkerProbeOpen(2), of "Sending port"] WorkerProbeOpen(3,5) show ?thesis
    by (simp add: work_left_def control_left_def)
next
  case (WorkerSend i port)
  from weights_update [OF WorkerSend(2), of Idle] WorkerSend(3,6) show ?thesis
    by (simp add: work_left_def control_left_def)
next
  case (WorkerHandoff i port)
  from weights_update [OF WorkerHandoff(2), of Idle] WorkerHandoff(3,6,7) show ?thesis
    by (simp add: work_left_def control_left_def)
next
  case (FeederSend port)
  with feeder_next [OF assms(1,2) FeederSend(2,3)] show ?thesis
    by (simp add: work_left_def control_left_def)
next
  case (FeederHandoff i port)
  from weights_update [OF FeederHandoff(5), of "Probing port"] FeederHandoff(2,3,6,7)
    feeder_next [OF assms(1,2) FeederHandoff(2,3)]
  show ?thesis
    by (simp add: work_left_def control_left_def)
next
  case MainDone
  then show ?thesis by (simp add: work_left_def control_left_def)
qed (simp_all add: work_left_def control_left_def)


subsection \<open>Runs from the start of a scan\<close>

lemma run_append:
  "run s (as @ bs) st = (case run s as st of None \<Rightarrow> None | Some st' \<Rightarrow> run s bs st')"
  by (induction as arbitrary: st) (auto split: option.splits)

lemma Scan_append:
  "Scan s as = Some st \<Longrightarrow> Scan s (as @ bs) = run s bs st"
  by (auto simp: Scan_def run_append split: sum.splits)

lemma live_count_replicate: "live_count (replicate n Idle) = n"
  by (simp add: live_count_def)

lemma in_workers_replicate: "in_workers (replicate n Idle) = {#}"
  by (induction n) (simp_all add: in_workers_def held_def)

lemma start_invariants:
  assumes "Scan_start s = Inr st"
  shows "pipeline_inv st" "banner_inv st" "return_inv st" "flow_inv st" "feeder_lb s st"
  using assms
  by (auto simp: Scan_start_def pipeline_inv_def banner_inv_def pending_def return_inv_def
      flow_inv_def in_workers_replicate feeder_lb_def live_count_replicate
      split: if_splits)

lemma start_feed_inv:
  "Scan_start s = Inr st \<Longrightarrow> startPort s \<le> endPort s + 1 \<Longrightarrow> feed_inv s st"
  by (auto simp: Scan_start_def feed_inv_def split: if_splits)

lemma Scan_cases:
  assumes "Scan s as = Some st"
  obtains st0 where "Scan_start s = Inr st0" "run s as st0 = Some st"
  using assms by (auto simp: Scan_def split: sum.splits)

lemma Scan_pipeline_inv: "Scan s as = Some st \<Longrightarrow> pipeline_inv st"
  by (erule Scan_cases) (rule run_invariant [where P = pipeline_inv], erule (1) pipeline_inv_step,
      erule start_invariants(1), assumption)


lemma Scan_return_inv: "Scan s as = Some st \<Longrightarrow> return_inv st"
  by (erule Scan_cases) (rule run_invariant [where P = return_inv], erule (1) return_inv_step,
      erule start_invariants(3), assumption)

lemma Scan_flow_inv: "Scan s as = Some st \<Longrightarrow> flow_inv st"
  by (erule Scan_cases) (rule run_invariant [where P = flow_inv], erule (1) flow_inv_step,
      erule start_invariants(4), assumption)

lemma Scan_feeder_lb: "no_wrap s \<Longrightarrow> Scan s as = Some st \<Longrightarrow> feeder_lb s st"
  by (erule Scan_cases)
     (rule run_invariant [where P = "feeder_lb s"], erule (2) feeder_lb_step,
      erule start_invariants(5), assumption)

lemma no_send_on_closed:
  assumes "Scan s as = Some st" "i < length (workers st)" "workers st ! i \<noteq> Exited"
  shows "\<not> results_closed st"
proof
  assume "results_closed st"
  with Scan_pipeline_inv [OF assms(1)] have "live_count (workers st) = 0"
    by (auto simp: pipeline_inv_def)
  with live_count_pos [OF assms(2,3)] show False by simp
qed

lemma valid_range_no_wrap: "valid_range s \<Longrightarrow> no_wrap s"
  by (simp add: valid_range_def no_wrap_def)

lemma Scan_feed_inv: "valid_range s \<Longrightarrow> Scan s as = Some st \<Longrightarrow> feed_inv s st"
  by (erule Scan_cases)
     (rule run_invariant [where P = "feed_inv s"], rule feed_inv_step,
      erule valid_range_no_wrap, assumption, assumption,
      erule start_feed_inv, simp add: valid_range_def, assumption)

lemma valid_range_le: "valid_range s \<Longrightarrow> startPort s \<le> endPort s + 1"
  by (simp add: valid_range_def)


lemma distinct_sub_mset:
  assumes "mset xs \<subseteq># mset ys" "distinct ys"
  shows "distinct xs"
proof -
  have "count (mset xs) a = (if a \<in> set xs then 1 else 0)" for a
  proof (cases "a \<in> set xs")
    case True
    from assms(1) have le: "count (mset xs) a \<le> count (mset ys) a" by (rule mset_subset_eq_count)
    from assms(2) have "count (mset ys) a \<le> 1" by (simp add: distinct_count_atmost_1)
    with le have "count (mset xs) a \<le> 1" by simp
    moreover from True have "0 < count (mset xs) a" by (metis count_greater_zero_iff set_mset_mset)
    ultimately have "count (mset xs) a = 1" by linarith
    with True show ?thesis by simp
  next
    case False
    then have "count (mset xs) a = 0" by (metis count_eq_zero_iff set_mset_mset)
    with False show ?thesis by simp
  qed
  then show ?thesis by (simp add: distinct_count_atmost_1)
qed

lemma distinct_in_interval:
  assumes "distinct xs" "set xs \<subseteq> {a..b::int}"
  shows "length xs \<le> nat (b - a + 1)"
proof -
  from assms(1) have "length xs = card (set xs)" by (simp add: distinct_card)
  also have "\<dots> \<le> card {a..b}" using assms(2) by (intro card_mono) simp_all
  finally show ?thesis by simp
qed

lemma Scan_unique:
  assumes "valid_range s" "Scan s as = Some st"
  shows "distinct (probed st)" "distinct (openPorts st)"
    "set (openPorts st) \<subseteq> {startPort s..endPort s}" "mset (openPorts st) \<subseteq># mset (probed st)"
proof -
  from Scan_feed_inv [OF assms] have d: "distinct (probed st)"
    and b: "set (probed st) \<subseteq> {startPort s..endPort s}"
    by (auto simp: feed_inv_def split: feeder.splits)
  from Scan_flow_inv [OF assms(2)]
  have "mset (openPorts st) + (mset (results st) + in_workers (workers st)) \<subseteq># mset (probed st)"
    by (simp add: flow_inv_def add.assoc)
  then have sub: "mset (openPorts st) \<subseteq># mset (probed st)"
    by (rule subset_mset.order_trans [OF mset_subset_eq_add_left])
  from d show "distinct (probed st)" .
  from sub d show "distinct (openPorts st)" by (rule distinct_sub_mset)
  from sub show "mset (openPorts st) \<subseteq># mset (probed st)" .
  from set_mset_mono [OF sub] b show "set (openPorts st) \<subseteq> {startPort s..endPort s}" by auto
qed

lemma step_cancelled:
  "step s a st = Some st' \<Longrightarrow> (\<And>e. a \<noteq> Cancel e) \<Longrightarrow> cancelled st' = cancelled st"
  by (erule step_cases) (auto simp: worker_exit_def)

lemma step_stays_cancelled:
  "step s a st = Some st' \<Longrightarrow> cancelled st \<noteq> None \<Longrightarrow> cancelled st' \<noteq> None"
  by (erule step_cases) (simp_all add: worker_exit_def)

lemma next_action_not_Cancel: "next_action s st \<noteq> Cancel e"
  by (auto simp: next_action_def worker_action_def
      split: collector.splits worker.splits feeder.splits)

lemma finish_returns:
  assumes dec: "\<And>st st'. I st \<Longrightarrow> step s (next_action s st) st = Some st' \<Longrightarrow> I st' \<and> m st' < m st"
    and pip: "\<And>st. I st \<Longrightarrow> pipeline_inv st"
  shows "I st \<Longrightarrow> m st \<le> n \<Longrightarrow>
         \<exists>st'. run s (finish s n st) st = Some st' \<and> returned (main st') \<and> I st'"
proof (induction n arbitrary: st)
  case 0
  show ?case
  proof (cases "returned (main st)")
    case True
    with 0 show ?thesis by simp
  next
    case False
    from next_action_enabled [OF pip [OF 0(1)] False]
    obtain st' where "step s (next_action s st) st = Some st'" by blast
    from dec [OF 0(1) this] 0(2) show ?thesis by simp
  qed
next
  case (Suc n)
  show ?case
  proof (cases "returned (main st)")
    case True
    with Suc.prems show ?thesis by simp
  next
    case False
    from next_action_enabled [OF pip [OF Suc.prems(1)] False]
    obtain st1 where 1: "step s (next_action s st) st = Some st1" by blast
    from dec [OF Suc.prems(1) 1] Suc.prems(2) have "I st1" "m st1 \<le> n" by simp_all
    from Suc.IH [OF this] obtain st' where
      "run s (finish s n st1) st1 = Some st'" "returned (main st')" "I st'" by blast
    with False 1 show ?thesis by simp
  qed
qed

lemma Scan_can_return:
  assumes nw: "no_wrap s" and sc: "Scan s as = Some st"
  shows "\<exists>st'. Scan s (as @ finish s (work_left s st) st) = Some st' \<and> returned (main st')
           \<and> cancelled st' = cancelled st"
proof -
  let ?I = "\<lambda>x. pipeline_inv x \<and> feeder_lb s x \<and> cancelled x = cancelled st"
  have "\<exists>st'. run s (finish s (work_left s st) st) st = Some st' \<and> returned (main st') \<and> ?I st'"
  proof (rule finish_returns [where I = ?I and m = "work_left s"])
    fix x x'
    assume i: "?I x" and st: "step s (next_action s x) x = Some x'"
    from i st show "?I x' \<and> work_left s x' < work_left s x"
      using pipeline_inv_step [OF _ st] feeder_lb_step [OF nw _ st] work_left_step [OF nw _ st]
        step_cancelled [OF st] next_action_not_Cancel
      by auto
  next
    show "?I st" using Scan_pipeline_inv [OF sc] Scan_feeder_lb [OF nw sc] by simp
  qed simp_all
  then show ?thesis using Scan_append [OF sc] by auto
qed

lemma run_length_bound:
  assumes nw: "no_wrap s"
  shows "feeder_lb s st \<Longrightarrow> run s as st = Some st' \<Longrightarrow> length as + work_left s st' \<le> work_left s st"
proof (induction as arbitrary: st)
  case Nil
  then show ?case by simp
next
  case (Cons a as)
  from Cons.prems(2) obtain st1 where 1: "step s a st = Some st1" and 2: "run s as st1 = Some st'"
    by (auto split: option.splits)
  from feeder_lb_step [OF nw Cons.prems(1) 1] have "feeder_lb s st1" .
  from Cons.IH [OF this 2] work_left_step [OF nw Cons.prems(1) 1] show ?case by simp
qed


lemma Some_the: "x \<noteq> None \<Longrightarrow> x = Some (the x)"
  by simp

lemma never_cancelled_step:
  "ctx s = Background \<Longrightarrow> cancelled st = None \<Longrightarrow> step s a st = Some st' \<Longrightarrow> cancelled st' = None"
  by (erule step_cases) (simp_all add: worker_exit_def)

lemma Scan_never_cancelled:
  assumes "ctx s = Background" "Scan s as = Some st"
  shows "cancelled st = None"
proof -
  from assms(2) obtain st0 where 0: "Scan_start s = Inr st0" and r: "run s as st0 = Some st"
    by (rule Scan_cases)
  from 0 have "cancelled st0 = None" by (auto simp: Scan_start_def split: if_splits)
  from run_invariant [where P = "\<lambda>x. cancelled x = None", OF never_cancelled_step [OF assms(1)] this r]
  show ?thesis .
qed

subsection \<open>The default configuration\<close>

text \<open>
  C10. Without options \<^verbatim>\<open>NewScanner\<close> returns target localhost, ports 1 to 1024, 100
  threads, a timeout of one second (\<open>10^9\<close> nanoseconds), the progress display on and the
  background context, which is never cancelled: no state of a scan with it is. An option
  applied after any list of options changes its own field (both bounds for
  \<^verbatim>\<open>WithPortRange\<close>) and nothing else; of two options for the same field the later one
  decides, and an option for another field in between changes nothing of that.
\<close>

theorem NewScanner_defaults_and_options:
  "NewScanner [] =
     \<lparr>target = ''localhost'', startPort = 1, endPort = 1024, threads = 100,
      timeout = 1000000000, showProgress = True, ctx = Background\<rparr> \<and>
   (\<forall>as st. Scan (NewScanner []) as = Some st \<longrightarrow> cancelled st = None) \<and>
   NewScanner (opts @ [WithTarget t]) = (NewScanner opts)\<lparr>target := t\<rparr> \<and>
   NewScanner (opts @ [WithPortRange a b]) = (NewScanner opts)\<lparr>startPort := a, endPort := b\<rparr> \<and>
   NewScanner (opts @ [WithThreads n]) = (NewScanner opts)\<lparr>threads := n\<rparr> \<and>
   NewScanner (opts @ [WithTimeout d]) = (NewScanner opts)\<lparr>timeout := d\<rparr> \<and>
   NewScanner (opts @ [WithProgress p]) = (NewScanner opts)\<lparr>showProgress := p\<rparr> \<and>
   NewScanner (opts @ [WithContext c]) = (NewScanner opts)\<lparr>ctx := c\<rparr> \<and>
   threads (NewScanner (opts @ [WithThreads n] @ [WithThreads m])) = m \<and>
   threads (NewScanner (opts @ [WithThreads n] @ [WithTarget t])) = n \<and>
   target (NewScanner (opts @ [WithTarget t] @ [WithPortRange a b] @ [WithTarget u])) = u"
proof -
  have "ctx (NewScanner []) = Background" by (simp add: NewScanner_def)
  then have "\<forall>as st. Scan (NewScanner []) as = Some st \<longrightarrow> cancelled st = None"
    using Scan_never_cancelled by blast
  then show ?thesis
    by (simp add: NewScanner_def Second_def WithTarget_def WithPortRange_def
        WithThreads_def WithTimeout_def WithProgress_def WithContext_def)
qed

theorem NewScanner_witness:
  "Scan (NewScanner []) [FeederSend, WorkerRecv 7, WorkerProbe 7 Connected] \<noteq> None \<and>
   cancelled (the (Scan (NewScanner []) [FeederSend, WorkerRecv 7, WorkerProbe 7 Connected])) = None \<and>
   connected (the (Scan (NewScanner []) [FeederSend, WorkerRecv 7, WorkerProbe 7 Connected])) = [1]"
proof -
  have n: "Scan (NewScanner []) [FeederSend, WorkerRecv 7, WorkerProbe 7 Connected] \<noteq> None"
    by code_simp
  have c: "connected (the (Scan (NewScanner []) [FeederSend, WorkerRecv 7, WorkerProbe 7 Connected])) = [1]"
    by code_simp
  from NewScanner_defaults_and_options n c Some_the [OF n] show ?thesis by blast
qed

subsection \<open>The ports found open and the ports probed\<close>

lemma sending_idle: "sum_list (replicate n (sending Idle)) = {#}"
  by (induction n) (simp_all add: sending_def)

lemma partial_inv_drop:
  assumes "partial_inv st" "i < length (workers st)" "sending w \<subseteq># sending (workers st ! i)"
    "openPorts st' = openPorts st" "results st' = results st" "connected st' = connected st"
    "workers st' = (workers st)[i := w]"
  shows "partial_inv st'"
proof -
  from sum_list_map_drop [OF assms(2,3)]
  have "mset (openPorts st) + mset (results st) + sum_list (map sending ((workers st)[i := w]))
        \<subseteq># mset (openPorts st) + mset (results st) + sum_list (map sending (workers st))"
    by (simp add: subset_mset.add_left_mono)
  also have "\<dots> \<subseteq># mset (connected st)" using assms(1) by (simp add: partial_inv_def)
  finally show ?thesis using assms(4-7) by (simp add: partial_inv_def)
qed

lemma partial_inv_step:
  assumes inv: "partial_inv st" and st: "step s a st = Some st'"
  shows "partial_inv st'"
  using st
proof (cases rule: step_cases)
  case (WorkerCancelled i)
  then show ?thesis
    by (intro partial_inv_drop [OF inv, of i Exited]) (auto simp: worker_exit_def sending_def)
next
  case (WorkerRecv i port rest)
  then show ?thesis
    by (intro partial_inv_drop [OF inv, of i "Probing port"]) (auto simp: sending_def)
next
  case (WorkerRecvClosed i)
  then show ?thesis
    by (intro partial_inv_drop [OF inv, of i Exited]) (auto simp: worker_exit_def sending_def)
next
  case (WorkerProbeIdle i d port)
  then show ?thesis
    by (intro partial_inv_drop [OF inv, of i Idle]) (auto simp: sending_def)
next
  case (WorkerProbeOpen i d port)
  from sum_list_map_update [OF WorkerProbeOpen(2), of sending "Sending port"] WorkerProbeOpen(3)
  have "sum_list (map sending ((workers st)[i := Sending port]))
        = sum_list (map sending (workers st)) + {#port#}"
    by (simp add: sending_def)
  with inv WorkerProbeOpen show ?thesis
    by (simp add: partial_inv_def ac_simps)
next
  case (WorkerSend i port)
  from sum_list_map_update [OF WorkerSend(2), of sending Idle] WorkerSend(3)
  have "sum_list (map sending (workers st))
        = sum_list (map sending ((workers st)[i := Idle])) + {#port#}"
    by (simp add: sending_def)
  with inv WorkerSend show ?thesis
    by (simp add: partial_inv_def ac_simps)
next
  case (WorkerHandoff i port)
  from sum_list_map_update [OF WorkerHandoff(2), of sending Idle] WorkerHandoff(3)
  have "sum_list (map sending (workers st))
        = sum_list (map sending ((workers st)[i := Idle])) + {#port#}"
    by (simp add: sending_def)
  with inv WorkerHandoff show ?thesis
    by (simp add: partial_inv_def ac_simps)
next
  case (FeederHandoff i port)
  then show ?thesis
    by (intro partial_inv_drop [OF inv, of i "Probing port"]) (auto simp: sending_def)
next
  case (MainRecv port rest)
  with inv show ?thesis by (simp add: partial_inv_def ac_simps)
qed (use inv in \<open>simp_all add: partial_inv_def\<close>)

lemma Scan_partial_inv: "Scan s as = Some st \<Longrightarrow> partial_inv st"
proof (erule Scan_cases)
  fix st0
  assume 0: "Scan_start s = Inr st0" and r: "run s as st0 = Some st"
  from 0 have "partial_inv st0"
    by (auto simp: Scan_start_def partial_inv_def sending_idle split: if_splits)
  from run_invariant [where P = partial_inv, OF partial_inv_step this r] show ?thesis .
qed

lemma Scan_partial_result: "Scan s as = Some st \<Longrightarrow> mset (openPorts st) \<subseteq># mset (connected st)"
proof -
  assume "Scan s as = Some st"
  from Scan_partial_inv [OF this]
  have "mset (openPorts st) + (mset (results st) + sum_list (map sending (workers st)))
        \<subseteq># mset (connected st)"
    by (simp add: partial_inv_def add.assoc)
  then show ?thesis by (rule subset_mset.order_trans [OF mset_subset_eq_add_left])
qed

lemma sending_same:
  "i < length ws \<Longrightarrow> sending w = sending (ws ! i) \<Longrightarrow>
   sum_list (map sending (ws[i := w])) = sum_list (map sending ws)"
  using sum_list_map_update [of i ws sending w] by simp

lemma exact_inv_step:
  assumes inv: "exact_inv st" and st: "step s a st = Some st'"
  shows "exact_inv st'"
  using st
proof (cases rule: step_cases)
  case (WorkerCancelled i)
  then show ?thesis by (auto simp: exact_inv_def worker_exit_def)
next
  case (WorkerRecv i port rest)
  with inv sending_same [OF WorkerRecv(2), of "Probing port"] show ?thesis
    by (simp add: exact_inv_def sending_def)
next
  case (WorkerRecvClosed i)
  with inv sending_same [OF WorkerRecvClosed(2), of Exited] show ?thesis
    by (simp add: exact_inv_def sending_def worker_exit_def)
next
  case (WorkerProbeIdle i d port)
  with inv sending_same [OF WorkerProbeIdle(2), of Idle] show ?thesis
    by (simp add: exact_inv_def sending_def)
next
  case (WorkerProbeOpen i d port)
  from sum_list_map_update [OF WorkerProbeOpen(2), of sending "Sending port"] WorkerProbeOpen(3)
  have "sum_list (map sending ((workers st)[i := Sending port]))
        = sum_list (map sending (workers st)) + {#port#}"
    by (simp add: sending_def)
  with inv WorkerProbeOpen show ?thesis
    by (simp add: exact_inv_def ac_simps)
next
  case (WorkerSend i port)
  from sum_list_map_update [OF WorkerSend(2), of sending Idle] WorkerSend(3)
  have "sum_list (map sending (workers st))
        = sum_list (map sending ((workers st)[i := Idle])) + {#port#}"
    by (simp add: sending_def)
  with inv WorkerSend show ?thesis
    by (simp add: exact_inv_def ac_simps)
next
  case (WorkerHandoff i port)
  from sum_list_map_update [OF WorkerHandoff(2), of sending Idle] WorkerHandoff(3)
  have "sum_list (map sending (workers st))
        = sum_list (map sending ((workers st)[i := Idle])) + {#port#}"
    by (simp add: sending_def)
  with inv WorkerHandoff show ?thesis
    by (simp add: exact_inv_def ac_simps)
next
  case (FeederHandoff i port)
  with inv sending_same [OF FeederHandoff(5), of "Probing port"] show ?thesis
    by (simp add: exact_inv_def sending_def)
next
  case (MainRecv port rest)
  with inv show ?thesis by (simp add: exact_inv_def ac_simps)
qed (use inv in \<open>simp_all add: exact_inv_def\<close>)

lemma Exited_update:
  assumes "i < length ws" "ws ! i \<noteq> Exited" "w \<noteq> Exited"
  shows "Exited \<in> set (ws[i := w]) \<longleftrightarrow> Exited \<in> set ws"
proof
  assume "Exited \<in> set (ws[i := w])"
  with set_update_subset_insert [of ws i w] assms(3) show "Exited \<in> set ws" by auto
next
  assume "Exited \<in> set ws"
  then obtain j where j: "j < length ws" "ws ! j = Exited" by (auto simp: in_set_conv_nth)
  with assms(2) have "j \<noteq> i" by auto
  with j have "(ws[i := w]) ! j = Exited" by simp
  with j(1) show "Exited \<in> set (ws[i := w])" by (metis length_list_update nth_mem)
qed

lemma complete_inv_step:
  assumes nw: "no_wrap s" and f: "feed_inv s st" and p: "pipeline_inv st"
    and inv: "complete_inv s st" and st: "step s a st = Some st'"
  shows "complete_inv s st'"
  using st
proof (cases rule: step_cases)
  case (Cancel e)
  then show ?thesis by (simp add: complete_inv_def)
next
  case (WorkerCancelled i)
  then show ?thesis by (auto simp: complete_inv_def worker_exit_def)
next
  case (WorkerRecv i port rest)
  with inv show ?thesis
    by (auto simp: complete_inv_def Exited_update split: feeder.splits)
next
  case (WorkerRecvClosed i)
  with inv p show ?thesis
    by (auto simp: complete_inv_def pipeline_inv_def worker_exit_def split: feeder.splits)
next
  case (WorkerProbeIdle i d port)
  with inv show ?thesis
    by (auto simp: complete_inv_def Exited_update split: feeder.splits)
next
  case (WorkerProbeOpen i d port)
  with inv show ?thesis
    by (auto simp: complete_inv_def Exited_update split: feeder.splits)
next
  case (WorkerSend i port)
  with inv show ?thesis
    by (auto simp: complete_inv_def Exited_update split: feeder.splits)
next
  case (WorkerHandoff i port)
  with inv show ?thesis
    by (auto simp: complete_inv_def Exited_update split: feeder.splits)
next
  case (FeederSend port)
  with nw f have "int64 (port + 1) = port + 1"
    by (intro int64_succ) (auto simp: feed_inv_def no_wrap_def)
  with inv f FeederSend show ?thesis
    by (auto simp: complete_inv_def feed_inv_def)
next
  case (FeederHandoff i port)
  with nw f have "int64 (port + 1) = port + 1"
    by (intro int64_succ) (auto simp: feed_inv_def no_wrap_def)
  with inv f FeederHandoff show ?thesis
    by (auto simp: complete_inv_def feed_inv_def Exited_update)
next
  case (FeederCancelled port)
  then show ?thesis by (auto simp: complete_inv_def)
next
  case (FeederClose port)
  with f have "port = endPort s + 1" by (simp add: feed_inv_def)
  with inv FeederClose show ?thesis
    by (auto simp: complete_inv_def)
qed (use inv in \<open>auto simp: complete_inv_def split: feeder.splits\<close>)


lemma length_workers_step: "step s a st = Some st' \<Longrightarrow> length (workers st') = length (workers st)"
  by (erule step_cases) (simp_all add: worker_exit_def)

lemma all_exited: "live_count ws = 0 \<Longrightarrow> w \<in> set ws \<Longrightarrow> w = Exited"
  by (auto simp: live_count_def filter_empty_conv)

lemma sending_all_exited: "live_count ws = 0 \<Longrightarrow> sum_list (map sending ws) = {#}"
  by (induction ws) (auto simp: live_count_def sending_def split: if_splits)

lemma Scan_length_workers: "Scan s as = Some st \<Longrightarrow> length (workers st) = nat (threads s)"
proof (erule Scan_cases)
  fix st0
  assume 0: "Scan_start s = Inr st0" and r: "run s as st0 = Some st"
  from 0 have "length (workers st0) = nat (threads s)"
    by (auto simp: Scan_start_def split: if_splits)
  from run_invariant [where P = "\<lambda>x. length (workers x) = nat (threads s)", OF _ this r]
  show ?thesis by (simp add: length_workers_step)
qed

lemma Scan_exact_inv: "Scan s as = Some st \<Longrightarrow> exact_inv st"
proof (erule Scan_cases)
  fix st0
  assume 0: "Scan_start s = Inr st0" and r: "run s as st0 = Some st"
  from 0 have "exact_inv st0"
    by (auto simp: Scan_start_def exact_inv_def sending_idle split: if_splits)
  from run_invariant [where P = exact_inv, OF exact_inv_step this r] show ?thesis .
qed

lemma Scan_complete_inv:
  assumes nw: "no_wrap s" and le: "startPort s \<le> endPort s + 1" and sc: "Scan s as = Some st"
  shows "complete_inv s st"
proof -
  from sc obtain st0 where 0: "Scan_start s = Inr st0" and r: "run s as st0 = Some st"
    by (rule Scan_cases)
  let ?P = "\<lambda>x. feed_inv s x \<and> pipeline_inv x \<and> complete_inv s x"
  from 0 have "complete_inv s st0"
    by (auto simp: Scan_start_def complete_inv_def split: if_splits)
  with start_feed_inv [OF 0 le] start_invariants(1) [OF 0] have "?P st0"
    by simp
  from run_invariant [where P = ?P, OF _ this r]
    feed_inv_step [OF nw] pipeline_inv_step
    complete_inv_step [OF nw]
  show ?thesis by blast
qed

lemma Scan_returned_quiet:
  assumes sc: "Scan s as = Some st" and ret: "main st = Returned ps e"
  shows "live_count (workers st) = 0" "results st = []"
  using Scan_pipeline_inv [OF sc] ret by (auto simp: pipeline_inv_def)

lemma Scan_exact_result:
  assumes sc: "Scan s as = Some st" and ret: "main st = Returned ps None"
  shows "mset ps = mset (connected st)"
proof -
  from Scan_return_inv [OF sc] ret have ps: "ps = openPorts st" and c: "cancelled st = None"
    by (auto simp: return_inv_def)
  note q = Scan_returned_quiet [OF sc ret]
  from Scan_exact_inv [OF sc] c q(2) sending_all_exited [OF q(1)] ps
  show ?thesis by (simp add: exact_inv_def)
qed

lemma Scan_all_probed:
  assumes nw: "no_wrap s" and le: "startPort s \<le> endPort s + 1"
    and sc: "Scan s as = Some st" and ret: "main st = Returned ps None"
    and t: "0 < threads s"
  shows "set (probed st) = {startPort s..endPort s}"
proof -
  from Scan_return_inv [OF sc] ret have c: "cancelled st = None"
    by (auto simp: return_inv_def)
  note q = Scan_returned_quiet [OF sc ret]
  from t Scan_length_workers [OF sc] obtain w where w: "w \<in> set (workers st)"
    by (cases "workers st") auto
  with all_exited [OF q(1) w] have "Exited \<in> set (workers st)" by simp
  with Scan_complete_inv [OF nw le sc] c show ?thesis
    by (auto simp: complete_inv_def)
qed

subsection \<open>Each port at most once\<close>

text \<open>
  C6. For a port range within 1 to 65535 with \<open>startPort \<le> endPort\<close>, in every state
  of every run: no port was handed to a worker twice (\<open>probed\<close> is distinct), every port
  collected was handed to a worker, so the ports collected are distinct ports of the
  range, at most \<open>endPort - startPort + 1\<close> of them. The collection \<^verbatim>\<open>Scan\<close> returns is
  this one. When \<^verbatim>\<open>Scan\<close> returns without error and there was a worker, every port of
  the range was handed to a worker: each exactly once.
\<close>

theorem Scan_ports_unique:
  assumes "valid_range s" "Scan s as = Some st"
  shows "distinct (openPorts st) \<and>
         int (length (openPorts st)) \<le> endPort s - startPort s + 1 \<and>
         set (openPorts st) \<subseteq> {startPort s..endPort s} \<and>
         distinct (probed st) \<and> mset (openPorts st) \<subseteq># mset (probed st) \<and>
         (\<forall>ps e. main st = Returned ps e \<longrightarrow>
            distinct ps \<and> int (length ps) \<le> endPort s - startPort s + 1) \<and>
         (\<forall>ps. 0 < threads s \<and> main st = Returned ps None \<longrightarrow>
            set (probed st) = {startPort s..endPort s})"
proof -
  note u = Scan_unique [OF assms]
  from distinct_in_interval [OF u(2,3)] assms(1)
  have len: "int (length (openPorts st)) \<le> endPort s - startPort s + 1"
    unfolding valid_range_def by linarith
  from Scan_return_inv [OF assms(2)]
  have "main st = Returned ps e \<Longrightarrow> ps = openPorts st" for ps e
    by (simp add: return_inv_def)
  with u len
    Scan_all_probed [OF valid_range_no_wrap [OF assms(1)] valid_range_le [OF assms(1)] assms(2)]
  show ?thesis by auto
qed

theorem Scan_ports_unique_witness:
  "valid_range two_port_scan \<and> Scan two_port_scan two_port_run \<noteq> None \<and>
   0 < threads two_port_scan \<and>
   set (probed (the (Scan two_port_scan two_port_run)))
     = {startPort two_port_scan..endPort two_port_scan} \<and>
   main (the (Scan two_port_scan two_port_run)) = Returned [22] None \<and>
   probed (the (Scan two_port_scan two_port_run)) = [22, 23] \<and>
   distinct (openPorts (the (Scan two_port_scan two_port_run))) \<and>
   int (length (openPorts (the (Scan two_port_scan two_port_run))))
     \<le> endPort two_port_scan - startPort two_port_scan + 1"
proof -
  have v: "valid_range two_port_scan" by code_simp
  have n: "Scan two_port_scan two_port_run \<noteq> None" by code_simp
  have m: "main (the (Scan two_port_scan two_port_run)) = Returned [22] None" by code_simp
  have p: "probed (the (Scan two_port_scan two_port_run)) = [22, 23]" by code_simp
  have t: "0 < threads two_port_scan" by code_simp
  from Scan_ports_unique [OF v Some_the [OF n]] v n m p t show ?thesis by blast
qed


subsection \<open>Banners are fetched by the scan\<close>




subsection \<open>What the scan returns\<close>

text \<open>
  Where the channels could be made: when \<^verbatim>\<open>Scan\<close> has returned, it returned the
  ports collected, and an error exactly when the context was cancelled, the error of
  that cancellation. The ports collected were all found open by their probes; returned
  without error they are all the ports that were found open. And \<^verbatim>\<open>Scan\<close> does return,
  when the feeder's increment cannot wrap: from every state of every run the
  scheduler's actions lead to the return, with the collection of that moment and the
  cancellation as it stood, and no run has more steps than the measure of the start
  state.
\<close>

theorem Scan_returns_collection:
  assumes "Scan s as = Some st"
  shows "(\<forall>ps e. main st = Returned ps e \<longrightarrow>
            ps = openPorts st \<and> e = map_option ScanCancelled (cancelled st)
            \<and> (e = None \<longleftrightarrow> cancelled st = None)) \<and>
         mset (openPorts st) \<subseteq># mset (connected st) \<and>
         (\<forall>ps. main st = Returned ps None \<longrightarrow> mset ps = mset (connected st)) \<and>
         (no_wrap s \<longrightarrow>
            (\<exists>st'. Scan s (as @ finish s (work_left s st) st) = Some st'
               \<and> main st' = Returned (openPorts st') (map_option ScanCancelled (cancelled st))) \<and>
            (\<exists>st0. Scan s [] = Some st0 \<and> length as + work_left s st \<le> work_left s st0))"
proof -
  from Scan_return_inv [OF assms]
  have 1: "\<forall>ps e. main st = Returned ps e \<longrightarrow>
            ps = openPorts st \<and> e = map_option ScanCancelled (cancelled st)
            \<and> (e = None \<longleftrightarrow> cancelled st = None)"
    by (auto simp: return_inv_def)
  have 2: "\<exists>st'. Scan s (as @ finish s (work_left s st) st) = Some st'
               \<and> main st' = Returned (openPorts st') (map_option ScanCancelled (cancelled st))"
    if nw: "no_wrap s"
  proof -
    from Scan_can_return [OF nw assms] obtain st' where
      s': "Scan s (as @ finish s (work_left s st) st) = Some st'" and r: "returned (main st')"
      and c: "cancelled st' = cancelled st" by blast
    from Scan_return_inv [OF s'] r c
    have "main st' = Returned (openPorts st') (map_option ScanCancelled (cancelled st))"
      by (cases "main st'") (auto simp: return_inv_def)
    with s' show ?thesis by blast
  qed
  have 3: "\<exists>st0. Scan s [] = Some st0 \<and> length as + work_left s st \<le> work_left s st0"
    if nw: "no_wrap s"
  proof -
    from assms obtain st0 where 0: "Scan_start s = Inr st0" and r: "run s as st0 = Some st"
      by (rule Scan_cases)
    from 0 have "Scan s [] = Some st0" by (simp add: Scan_def)
    with run_length_bound [OF nw start_invariants(5) [OF 0] r] show ?thesis by blast
  qed
  from 1 2 3 Scan_partial_result [OF assms] Scan_exact_result [OF assms] show ?thesis by blast
qed

theorem Scan_returns_collection_witness:
  "Scan cancelled_scan cancelled_run \<noteq> None \<and> no_wrap cancelled_scan \<and>
   main (the (Scan cancelled_scan cancelled_run)) = Returned [22] (Some (ScanCancelled Canceled)) \<and>
   openPorts (the (Scan cancelled_scan cancelled_run)) = [22] \<and>
   cancelled (the (Scan cancelled_scan cancelled_run)) = Some Canceled \<and>
   connected (the (Scan cancelled_scan cancelled_run)) = [22]"
proof -
  have n: "Scan cancelled_scan cancelled_run \<noteq> None" by code_simp
  have w: "no_wrap cancelled_scan" by code_simp
  have m: "main (the (Scan cancelled_scan cancelled_run))
           = Returned [22] (Some (ScanCancelled Canceled))" by code_simp
  have c: "connected (the (Scan cancelled_scan cancelled_run)) = [22]" by code_simp
  from Scan_returns_collection [OF Some_the [OF n]] m n w c show ?thesis by auto
qed

text \<open>
  C5. \<^verbatim>\<open>Scan\<close> is to return its collection always, with an error exactly on
  cancellation, and to know no hard failure. Where the channels could be made it does, as
  shown above. With the port range 10 to 5 it does not: \<^verbatim>\<open>portCount\<close> is -4,
  \<^verbatim>\<open>make(chan int, min(portCount, 1000))\<close> panics, no state of the scan is reached and
  nothing is returned. The interactive command \<^verbatim>\<open>range\<close> passes its two port numbers to
  \<^verbatim>\<open>WithPortRange\<close> as they were typed, while the command \<^verbatim>\<open>scan\<close> refuses an end port
  below the start port and the web handler replaces it.
\<close>

theorem Scan_panics_on_negative_count:
  "Scan_start (NewScanner [WithPortRange 10 5]) = Inl MakechanSizeOutOfRange \<and>
   Scan (NewScanner [WithPortRange 10 5]) [] = None"
  by code_simp

subsection \<open>No configuration is rejected\<close>




subsection \<open>A scan without workers\<close>

lemma feeder_sends:
  assumes "\<not> returned (main st)" "feeder st = Feeding port" "- (2 ^ 63) \<le> port"
    "endPort s < 2 ^ 63 - 1"
  shows "port + int n \<le> endPort s + 1 \<Longrightarrow> length (ports st) + n \<le> capacity s \<Longrightarrow>
         run s (replicate n FeederSend) st
         = Some (st\<lparr>ports := ports st @ map (\<lambda>k. port + int k) [0..<n],
                     feeder := Feeding (port + int n)\<rparr>)"
proof (induction n)
  case 0
  with assms(2) show ?case by simp
next
  case (Suc n)
  let ?st = "st\<lparr>ports := ports st @ map (\<lambda>k. port + int k) [0..<n],
                  feeder := Feeding (port + int n)\<rparr>"
  from Suc have ih: "run s (replicate n FeederSend) st = Some ?st" by simp
  from Suc.prems assms(3,4) have "int64 (port + int n + 1) = port + int n + 1"
    by (intro int64_succ) simp_all
  with Suc.prems assms(1) have "step s FeederSend ?st
      = Some (st\<lparr>ports := ports st @ map (\<lambda>k. port + int k) [0..<Suc n],
                  feeder := Feeding (port + int (Suc n))\<rparr>)"
    by (simp add: step_def add.commute add.left_commute)
  with ih have "run s (replicate n FeederSend @ [FeederSend]) st
      = Some (st\<lparr>ports := ports st @ map (\<lambda>k. port + int k) [0..<Suc n],
                  feeder := Feeding (port + int (Suc n))\<rparr>)"
    by (simp add: run_append)
  then show ?case by (simp only: replicate_append_same replicate_Suc)
qed

lemma no_worker_scan_simps:
  "threads no_worker_scan = 0" "startPort no_worker_scan = 1" "endPort no_worker_scan = 1024"
  "capacity no_worker_scan = 1000" "showProgress no_worker_scan = True"
  "ctx no_worker_scan = Background"
  by (simp_all add: no_worker_scan_def NewScanner_def WithThreads_def capacity_def portCount_def
      int64_def min_int_def)

lemma Scan_full_queue: "Scan no_worker_scan (replicate 1000 FeederSend) = Some full_queue"
proof -
  let ?st0 = "\<lparr>cancelled = None, ports = [], ports_closed = False,
      results = [], results_closed = False, done_closed = False, wg = 0, workers = [],
      feeder = Feeding 1, closer = Waiting, main = Collecting, openPorts = [],
      probed = [], connected = [], banners = []\<rparr>"
  have 0: "Scan_start no_worker_scan = Inr ?st0"
    by (simp add: Scan_start_def no_worker_scan_simps portCount_def int64_def min_int_def)
  have "run no_worker_scan (replicate 1000 FeederSend) ?st0
        = Some (?st0\<lparr>ports := ports ?st0 @ map (\<lambda>k. 1 + int k) [0..<1000],
                      feeder := Feeding (1 + int 1000)\<rparr>)"
    by (rule feeder_sends) (simp_all add: no_worker_scan_simps)
  with 0 show ?thesis by (simp add: Scan_def full_queue_def)
qed

lemma no_workers_step:
  assumes "workers st = [] \<and> results st = [] \<and> openPorts st = [] \<and> probed st = []"
    and "step s a st = Some st'"
  shows "workers st' = [] \<and> results st' = [] \<and> openPorts st' = [] \<and> probed st' = []"
  using assms(2,1) by (cases rule: step_cases) (auto simp: worker_exit_def)

lemma Scan_no_workers:
  assumes "threads s \<le> 0" "Scan s as = Some st"
  shows "workers st = [] \<and> results st = [] \<and> openPorts st = [] \<and> probed st = []"
proof -
  from assms(2) obtain st0 where 0: "Scan_start s = Inr st0" and r: "run s as st0 = Some st"
    by (rule Scan_cases)
  from 0 assms(1) have "workers st0 = [] \<and> results st0 = [] \<and> openPorts st0 = [] \<and> probed st0 = []"
    by (auto simp: Scan_start_def split: if_splits)
  from run_invariant [where P = "\<lambda>x. workers x = [] \<and> results x = [] \<and> openPorts x = [] \<and> probed x = []",
      OF no_workers_step this r]
  show ?thesis by simp
qed

lemma next_action_no_workers:
  "wg st = 0 \<Longrightarrow>
   next_action s st \<in> {MainRecv, MainRangeEnd, CloserCloseResults, CloserWait, MainBanner,
     MainDone, CloserCloseDone, MainStopProgress, MainReturn}"
  by (auto simp: next_action_def split: collector.splits)

lemma control_step:
  assumes "wg st = 0" "step s (next_action s st) st = Some st'" "results st = []"
  shows "control_left st' < control_left st"
  using assms(2) next_action_no_workers [OF assms(1), of s] assms(3)
  by (cases rule: step_cases) (auto simp: control_left_def)

lemma control_left_le: "control_left st \<le> 9"
  by (simp add: control_left_def split: closer.splits collector.splits)

lemma no_workers_return:
  assumes "threads s \<le> 0" "Scan s as = Some st"
  shows "\<exists>st'. Scan s (as @ finish s 9 st) = Some st'
           \<and> main st' = Returned [] (map_option ScanCancelled (cancelled st))"
proof -
  let ?I = "\<lambda>x. pipeline_inv x \<and> return_inv x \<and> cancelled x = cancelled st
              \<and> (workers x = [] \<and> results x = [] \<and> openPorts x = [] \<and> probed x = [])"
  have "\<exists>st'. run s (finish s 9 st) st = Some st' \<and> returned (main st') \<and> ?I st'"
  proof (rule finish_returns [where I = ?I and m = control_left])
    fix x x'
    assume i: "?I x" and st: "step s (next_action s x) x = Some x'"
    from i have "wg x = 0" by (simp add: pipeline_inv_def live_count_def)
    from control_step [OF this st] i
      pipeline_inv_step [OF _ st] return_inv_step [OF _ st] no_workers_step [OF _ st]
      step_cancelled [OF st] next_action_not_Cancel
    show "?I x' \<and> control_left x' < control_left x" by auto
  next
    show "?I st"
      using Scan_pipeline_inv [OF assms(2)] Scan_return_inv [OF assms(2)] Scan_no_workers [OF assms]
      by simp
  qed (simp_all add: control_left_le)
  then obtain st' where r: "run s (finish s 9 st) st = Some st'" and ret: "returned (main st')"
    and i: "?I st'" by blast
  from ret i have "main st' = Returned [] (map_option ScanCancelled (cancelled st))"
    by (cases "main st'") (auto simp: return_inv_def)
  with r Scan_append [OF assms(2)] show ?thesis by simp
qed

lemma blocked_feeder:
  assumes w: "workers st = []" and f: "feeder st = Feeding port" "port \<le> endPort s"
    and full: "capacity s \<le> length (ports st)"
    and r: "run s bs st = Some st'" and c: "cancelled st' = None"
  shows "feeder st' = Feeding port \<and> ports st' = ports st"
proof -
  let ?P = "\<lambda>x. workers x = [] \<and> (cancelled x = None \<longrightarrow> feeder x = Feeding port \<and> ports x = ports st)"
  have "?P st'"
  proof (rule run_invariant [where P = ?P, OF _ _ r])
    fix a x x'
    assume p: "?P x" and st: "step s a x = Some x'"
    from st p f(2) full step_stays_cancelled [OF st] show "?P x'"
      by (cases rule: step_cases) (auto simp: worker_exit_def)
  next
    show "?P st" using w f by simp
  qed
  with c show ?thesis by simp
qed

text \<open>
  C1. With a concurrency limit of zero or below no worker exists and the counter of the
  \<^verbatim>\<open>WaitGroup\<close> is zero: in every state of every run nothing was probed or collected,
  the barrier's wait is not blocked, and the scheduler's actions lead within nine steps
  to the return of \<^verbatim>\<open>Scan\<close> with an empty collection and the error of the cancellation,
  if there was one. What does block is the feeder: once the queue is full and ports
  remain, it stays where it is, and the queue as it is, for as long as the context is
  not cancelled.
\<close>

theorem Scan_without_workers:
  assumes "threads s \<le> 0" "Scan s as = Some st"
  shows "workers st = [] \<and> wg st = 0 \<and> probed st = [] \<and> openPorts st = [] \<and>
     (closer st = Waiting \<and> \<not> returned (main st) \<longrightarrow> step s CloserWait st \<noteq> None) \<and>
     (\<exists>st'. Scan s (as @ finish s 9 st) = Some st'
        \<and> main st' = Returned [] (map_option ScanCancelled (cancelled st))) \<and>
     (\<forall>port bs st'.
        feeder st = Feeding port \<and> port \<le> endPort s \<and> capacity s \<le> length (ports st)
        \<and> run s bs st = Some st' \<and> cancelled st' = None
        \<longrightarrow> feeder st' = Feeding port \<and> ports st' = ports st)"
proof -
  note nw = Scan_no_workers [OF assms]
  from Scan_pipeline_inv [OF assms(2)] nw have wg: "wg st = 0"
    by (simp add: pipeline_inv_def live_count_def)
  then have "closer st = Waiting \<and> \<not> returned (main st) \<longrightarrow> step s CloserWait st \<noteq> None"
    by (simp add: step_def)
  moreover have "\<forall>port bs st'.
        feeder st = Feeding port \<and> port \<le> endPort s \<and> capacity s \<le> length (ports st)
        \<and> run s bs st = Some st' \<and> cancelled st' = None
        \<longrightarrow> feeder st' = Feeding port \<and> ports st' = ports st"
    using blocked_feeder [of st _ s] nw by blast
  ultimately show ?thesis using nw wg no_workers_return [OF assms] by blast
qed

lemma run_full_queue: "run no_worker_scan barrier_run full_queue = Some full_queue_returned"
  by (simp add: barrier_run_def full_queue_def full_queue_returned_def step_def
      no_worker_scan_simps)

theorem Scan_without_workers_witness:
  "threads no_worker_scan \<le> 0 \<and>
   Scan no_worker_scan (replicate 1000 FeederSend) = Some full_queue \<and>
   feeder full_queue = Feeding 1001 \<and> 1001 \<le> endPort no_worker_scan \<and>
   capacity no_worker_scan \<le> length (ports full_queue) \<and>
   run no_worker_scan barrier_run full_queue = Some full_queue_returned \<and>
   cancelled full_queue_returned = None \<and>
   main full_queue_returned = Returned [] None \<and>
   feeder full_queue_returned = Feeding 1001 \<and>
   ports full_queue_returned = ports full_queue \<and> workers full_queue = [] \<and>
   probed full_queue = []"
proof -
  have h: "threads no_worker_scan \<le> 0" by (simp add: no_worker_scan_simps)
  have f: "feeder full_queue = Feeding 1001 \<and> 1001 \<le> endPort no_worker_scan \<and>
     capacity no_worker_scan \<le> length (ports full_queue) \<and>
     run no_worker_scan barrier_run full_queue = Some full_queue_returned \<and>
     cancelled full_queue_returned = None"
    by (simp add: run_full_queue no_worker_scan_simps) (simp add: full_queue_def full_queue_returned_def)
  have m: "main full_queue_returned = Returned [] None"
    by (simp add: full_queue_returned_def)
  from Scan_without_workers [OF h Scan_full_queue] f h m Scan_full_queue
  show ?thesis by blast
qed

text \<open>
  The specification has a scan with zero workers never return. Not so for the default
  range with \<^verbatim>\<open>WithThreads(0)\<close>: on the schedule of the barrier and of \<^verbatim>\<open>Scan\<close> itself,
  seven steps, \<^verbatim>\<open>Scan\<close> returns the empty collection and no error.
\<close>

theorem Scan_zero_threads_returns:
  "map_option main (Scan no_worker_scan barrier_run) = Some (Returned [] None)"
  by code_simp



end
